theory Spec2Isabelle
  imports Main "HOL-Library.Word" "HOL-Library.Sublist"
begin

section \<open>Shared conventions of package extio\<close>

text \<open>
  Bytes are 8-bit words. The two package-level sentinel errors \<open>ErrClosed\<close> and
  \<open>ErrAborted\<close> are constructors of one error type, together with the sentinels of
  package io that the code compares against or returns, and \<open>UserErr\<close> for any error
  value produced by a caller-supplied collaborator (boundary function, callback, source,
  sink).
\<close>

type_synonym byte = "8 word"

datatype error =
    ErrClosed
  | ErrAborted
  | ErrShortBuffer
  | ErrShortWrite
  | EOF
  | ErrUnexpectedEOF
  | UserErr nat

text \<open>
  A Go call either returns normally or panics; \<open>Panic\<close> is the run-time panic of an
  out-of-range slice expression, of a second \<open>close\<close> of a channel or of a send on a
  closed channel.
\<close>

datatype 'a exec = Panic | Done 'a

section \<open>ScannerWriter (scanner\_writer.go)\<close>

text \<open>
  \<open>bufio.SplitFunc\<close>: from the data and the at-EOF flag to (advance, token, err). A
  \<open>nil\<close> token is \<open>None\<close>; a non-nil token may be empty. The token callback
  \<open>func(token []byte) error\<close> is a closure; its answer may depend on the calls it has
  seen, so it is given the list of tokens delivered to it so far. That list is threaded
  through every operation as the record of what has been delivered.
\<close>

type_synonym SplitFunc = "byte list \<Rightarrow> bool \<Rightarrow> int \<times> byte list option \<times> error option"
type_synonym TokenFunc = "byte list list \<Rightarrow> byte list \<Rightarrow> error option"

record ScannerWriter =
  sw_buf :: "byte list option"
  sw_maxBufSize :: int
  sw_closed :: bool
  sw_splitFunc :: SplitFunc
  sw_tokenFunc :: TokenFunc

definition NewScannerWriter :: "SplitFunc \<Rightarrow> int \<Rightarrow> TokenFunc \<Rightarrow> ScannerWriter" where
  "NewScannerWriter splitFunc maxBufSize tokenFunc =
     \<lparr> sw_buf = None, sw_maxBufSize = maxBufSize, sw_closed = False,
       sw_splitFunc = splitFunc, sw_tokenFunc = tokenFunc \<rparr>"

text \<open>What one call returns: the values returned, the instance, the tokens delivered.\<close>

type_synonym 'r sw_result = "'r \<times> ScannerWriter \<times> byte list list"

text \<open>
  \<open>data = data[adv:]\<close> under \<open>if adv > 0\<close>: the slice expression panics when
  \<open>adv > len(data)\<close>.
\<close>

definition advance :: "int \<Rightarrow> byte list \<Rightarrow> byte list exec" where
  "advance adv data =
     (if adv > 0 then
        (if adv > int (length data) then Panic else Done (drop (nat adv) data))
      else Done data)"

text \<open>
  One pass through the body of \<open>for len(data) > 0\<close> in Write: either the call returns
  (\<open>Inl\<close>), or the loop goes on with the remaining data (\<open>Inr\<close>).
\<close>

definition write_body ::
  "ScannerWriter \<Rightarrow> nat \<Rightarrow> byte list \<Rightarrow> byte list list \<Rightarrow>
     ((nat \<times> error option) sw_result) exec + (byte list \<times> byte list list)" where
  "write_body sc dataLen data out =
     (case sw_splitFunc sc data False of (adv, token, err) \<Rightarrow>
        (case err of
           Some e \<Rightarrow> Inl (Done ((0, Some e), sc, out))
         | None \<Rightarrow>
             (case token of
                None \<Rightarrow>
                  if adv = 0 then
                    (if int (length data) > sw_maxBufSize sc
                     then Inl (Done ((0, Some ErrShortBuffer), sc, out))
                     else Inl (Done ((dataLen, None), sc\<lparr>sw_buf := Some data\<rparr>, out)))
                  else
                    (case advance adv data of
                       Panic \<Rightarrow> Inl Panic
                     | Done data' \<Rightarrow> Inr (data', out))
              | Some t \<Rightarrow>
                  (case sw_tokenFunc sc out t of
                     Some e \<Rightarrow> Inl (Done ((0, Some e), sc, out @ [t]))
                   | None \<Rightarrow>
                       (case advance adv data of
                          Panic \<Rightarrow> Inl Panic
                        | Done data' \<Rightarrow> Inr (data', out @ [t]))))))"

text \<open>
  The loop itself. Nothing forces the boundary function to make progress, so the loop
  may run forever; then the value is \<open>None\<close>.
\<close>

partial_function (option) write_loop ::
  "ScannerWriter \<Rightarrow> nat \<Rightarrow> byte list \<Rightarrow> byte list list \<Rightarrow>
     ((nat \<times> error option) sw_result) exec option" where
  "write_loop sc dataLen data out =
     (if length data > 0 then
        (case write_body sc dataLen data out of
           Inl r \<Rightarrow> Some r
         | Inr (data', out') \<Rightarrow> write_loop sc dataLen data' out')
      else Some (Done ((dataLen, None), sc, out)))"

declare write_loop.simps [code]

definition ScannerWriter_Write ::
  "ScannerWriter \<Rightarrow> byte list \<Rightarrow> byte list list \<Rightarrow>
     ((nat \<times> error option) sw_result) exec option" where
  "ScannerWriter_Write sc data out =
     (if sw_closed sc then Some (Done ((0, Some ErrClosed), sc, out))
      else
        (case sw_buf sc of
           Some b \<Rightarrow> write_loop (sc\<lparr>sw_buf := None\<rparr>) (length data) (b @ data) out
         | None \<Rightarrow> write_loop sc (length data) data out))"

definition ScannerWriter_Flush ::
  "ScannerWriter \<Rightarrow> byte list list \<Rightarrow> (error option) sw_result" where
  "ScannerWriter_Flush sc out =
     (if sw_closed sc then (Some ErrClosed, sc, out)
      else
        (case sw_buf sc of
           None \<Rightarrow> (None, sc, out)
         | Some b \<Rightarrow>
             if length b = 0 then (None, sc, out)
             else
               (case sw_splitFunc sc b True of (adv, token, err) \<Rightarrow>
                  (case err of
                     Some e \<Rightarrow> (Some e, sc, out)
                   | None \<Rightarrow>
                       (case token of
                          None \<Rightarrow> (None, sc\<lparr>sw_buf := None\<rparr>, out)
                        | Some t \<Rightarrow>
                            if length t > 0 then
                              (case sw_tokenFunc sc out t of
                                 Some e \<Rightarrow> (Some e, sc\<lparr>sw_buf := None\<rparr>, out @ [t])
                               | None \<Rightarrow> (None, sc\<lparr>sw_buf := None\<rparr>, out @ [t]))
                            else (None, sc\<lparr>sw_buf := None\<rparr>, out))))))"

definition ScannerWriter_Close ::
  "ScannerWriter \<Rightarrow> byte list list \<Rightarrow> (error option) sw_result" where
  "ScannerWriter_Close sc out =
     (if sw_closed sc then (Some ErrClosed, sc, out)
      else
        (case ScannerWriter_Flush sc out of
           (Some e, sc', out') \<Rightarrow> (Some e, sc', out')
         | (None, sc', out') \<Rightarrow> (None, sc'\<lparr>sw_closed := True\<rparr>, out')))"

subsection \<open>Vocabulary for the results of Write\<close>

text \<open>The bytes still pending in the buffer (\<open>nil\<close> and empty are both no bytes).\<close>

definition pending :: "ScannerWriter \<Rightarrow> byte list" where
  "pending sc = (case sw_buf sc of None \<Rightarrow> [] | Some b \<Rightarrow> b)"

text \<open>
  \<open>callbacks_ok tf out ts\<close>: the callback, having seen \<open>out\<close>, returns \<open>nil\<close> for each
  of the tokens \<open>ts\<close> delivered in turn.
\<close>

fun callbacks_ok :: "TokenFunc \<Rightarrow> byte list list \<Rightarrow> byte list list \<Rightarrow> bool" where
  "callbacks_ok tf out [] = True"
| "callbacks_ok tf out (t # ts) = (tf out t = None \<and> callbacks_ok tf (out @ [t]) ts)"

text \<open>
  The three origins of an error of Write: the boundary function returned it on some
  unconsumed remainder of the data; the callback returned it on the last token delivered,
  having accepted every earlier one; the boundary function asked for more data on a
  remainder longer than \<open>maxBufSize\<close>.
\<close>

definition split_failed :: "ScannerWriter \<Rightarrow> byte list \<Rightarrow> error \<Rightarrow> bool" where
  "split_failed sc data e =
     (\<exists>d adv tok. suffix d data \<and> d \<noteq> [] \<and> sw_splitFunc sc d False = (adv, tok, Some e))"

definition callback_failed ::
  "ScannerWriter \<Rightarrow> byte list list \<Rightarrow> byte list list \<Rightarrow> error \<Rightarrow> bool" where
  "callback_failed sc out ts e =
     (ts \<noteq> [] \<and> callbacks_ok (sw_tokenFunc sc) out (butlast ts) \<and>
      sw_tokenFunc sc (out @ butlast ts) (last ts) = Some e)"

definition overflowed :: "ScannerWriter \<Rightarrow> byte list \<Rightarrow> bool" where
  "overflowed sc data =
     (\<exists>d. suffix d data \<and> d \<noteq> [] \<and> sw_splitFunc sc d False = (0, None, None) \<and>
          int (length d) > sw_maxBufSize sc)"

definition write_post ::
  "ScannerWriter \<Rightarrow> nat \<Rightarrow> byte list \<Rightarrow> byte list list \<Rightarrow>
     (nat \<times> error option) sw_result \<Rightarrow> bool" where
  "write_post sc dataLen data out r =
     (case r of ((n, err), sc', out') \<Rightarrow>
        sc'\<lparr>sw_buf := None\<rparr> = sc\<lparr>sw_buf := None\<rparr> \<and>
        (\<exists>ts. out' = out @ ts \<and>
          (case err of
             None \<Rightarrow> n = dataLen \<and> callbacks_ok (sw_tokenFunc sc) out ts
           | Some e \<Rightarrow> n = 0 \<and> sw_buf sc' = sw_buf sc \<and>
              ((callbacks_ok (sw_tokenFunc sc) out ts \<and> split_failed sc data e)
               \<or> callback_failed sc out ts e
               \<or> (callbacks_ok (sw_tokenFunc sc) out ts \<and> e = ErrShortBuffer \<and>
                    overflowed sc data)))))"

text \<open>
  A boundary function makes progress when every answer without error either asks for more
  data (no advance, no token) or advances by at least one and at most \<open>len(data)\<close> bytes.
  Such a function can neither make the loop of Write spin nor make its slice expression
  panic.
\<close>

definition progressing :: "SplitFunc \<Rightarrow> bool" where
  "progressing split =
     (\<forall>d adv tok. d \<noteq> [] \<and> split d False = (adv, tok, None) \<longrightarrow>
        (adv = 0 \<and> tok = None) \<or> (0 < adv \<and> adv \<le> int (length d)))"

subsection \<open>Concrete collaborators\<close>

text \<open>
  A boundary function in the manner of \<open>bufio.ScanLines\<close> (lines end at byte 10; at EOF
  a last unterminated line is a token), and two callbacks: one accepts every token, one
  rejects every token.
\<close>

definition ScanLinesLF :: SplitFunc where
  "ScanLinesLF data atEOF =
     (if 10 \<in> set data then
        (int (length (takeWhile (\<lambda>b. b \<noteq> 10) data)) + 1,
         Some (takeWhile (\<lambda>b. b \<noteq> 10) data), None)
      else if atEOF \<and> data \<noteq> [] then (int (length data), Some data, None)
      else (0, None, None))"

definition accept_all :: TokenFunc where
  "accept_all h t = None"

definition reject_all :: TokenFunc where
  "reject_all h t = Some (UserErr 0)"

text \<open>
  Two boundary functions that do not make progress: one advances past the end of the data
  it was given, one returns an (empty) token without advancing.
\<close>

definition ScanTooFar :: SplitFunc where
  "ScanTooFar data atEOF = (int (length data) + 1, None, None)"



section \<open>AsyncReader (async\_reader.go)\<close>

text \<open>
  A segment is what the goroutine of Start sends over the channel \<open>c\<close>: the bytes of one
  full read and the error of that read.
\<close>

record segment =
  seg_b :: "byte list"
  seg_err :: "error option"

text \<open>
  \<open>io.ReadFull(r, buf)\<close> on a finite source, of which \<open>src\<close> is the part not yet read,
  with \<open>len(buf) = k\<close>: it fills the buffer when the source has that many bytes left; it
  returns \<open>io.EOF\<close> when nothing is left and \<open>io.ErrUnexpectedEOF\<close> with the bytes read
  when fewer than \<open>k\<close> are left. The result is the bytes read (\<open>buf[:n]\<close>), the error and
  the rest of the source.
\<close>

definition ReadFull :: "byte list \<Rightarrow> nat \<Rightarrow> (byte list \<times> error option) \<times> byte list" where
  "ReadFull src k =
     (if k = 0 then (([], None), src)
      else if src = [] then (([], Some EOF), src)
      else if length src < k then ((src, Some ErrUnexpectedEOF), [])
      else ((take k src, None), drop k src))"

text \<open>
  Where the goroutine of Start stands: not yet spawned; at the head of its \<open>for\<close> loop;
  at its \<open>select\<close>, holding the segment it has just read; returned (the deferred
  \<open>close(ar.c)\<close> has run). Where the caller of Read stands: outside Read, or inside the
  \<open>select\<close> of the loop of \<open>Read(b)\<close> with \<open>len(b)\<close> as given.
\<close>

datatype ar_producer = P_NotStarted | P_Loop | P_Select segment | P_Returned

datatype ar_consumer = C_Idle | C_Select nat

text \<open>
  The AsyncReader with the goroutine and the caller around it. \<open>ar_r\<close> is the unread
  part of the source, \<open>ar_c\<close> the segments queued in the channel, \<open>ar_abort\<close> says that
  the channel \<open>abort\<close> is closed, \<open>ar_bufs\<close> holds the lengths of the slices put into the
  pool. \<open>ar_returned\<close> lists what the calls of Read have returned: the bytes copied into
  \<open>b\<close> and the error.
\<close>

record AsyncReader =
  ar_r :: "byte list"
  ar_c :: "segment list"
  ar_c_closed :: bool
  ar_abort :: bool
  ar_bufs :: "nat list"
  ar_buf :: "byte list"
  ar_BufferSize :: nat
  ar_ChannelSize :: nat
  ar_producer :: ar_producer
  ar_consumer :: ar_consumer
  ar_returned :: "(byte list \<times> error option) list"

definition NewAsyncReader :: "byte list \<Rightarrow> AsyncReader" where
  "NewAsyncReader r =
     \<lparr> ar_r = r, ar_c = [], ar_c_closed = False, ar_abort = False, ar_bufs = [],
       ar_buf = [], ar_BufferSize = 2 * 2 ^ 20, ar_ChannelSize = 32,
       ar_producer = P_NotStarted, ar_consumer = C_Idle, ar_returned = [] \<rparr>"

text \<open>
  The steps of the system. Each is what one party does from one blocking point to the
  next; a step that cannot be taken in a state (the party is elsewhere, or it would
  block) is \<open>None\<close>.
\<close>

datatype ar_action =
    A_Start
  | A_Fill "nat option"
  | A_Send
  | A_SendAbort
  | A_Read nat
  | A_Recv
  | A_RecvAbort
  | A_Close

text \<open>\<open>Start\<close>: make the channel and the pool, spawn the goroutine.\<close>

definition AsyncReader_Start :: "AsyncReader \<Rightarrow> AsyncReader option" where
  "AsyncReader_Start ar =
     (if ar_producer ar = P_NotStarted
      then Some (ar\<lparr>ar_c := [], ar_c_closed := False, ar_bufs := [], ar_producer := P_Loop\<rparr>)
      else None)"

text \<open>
  The goroutine, from the head of the loop to its \<open>select\<close>: \<open>ar.bufs.Get()\<close> gives a new
  slice of \<open>BufferSize\<close> bytes (\<open>None\<close>) or one of the slices put back (\<open>Some i\<close>, the
  \<open>i\<close>-th of them), and \<open>io.ReadFull\<close> reads into it.
\<close>

definition producer_fill :: "nat option \<Rightarrow> AsyncReader \<Rightarrow> AsyncReader option" where
  "producer_fill which ar =
     (if ar_producer ar \<noteq> P_Loop then None
      else
        (case which of
           None \<Rightarrow>
             (case ReadFull (ar_r ar) (ar_BufferSize ar) of ((b, err), rest) \<Rightarrow>
                Some (ar\<lparr>ar_r := rest, ar_producer := P_Select \<lparr>seg_b = b, seg_err = err\<rparr>\<rparr>))
         | Some i \<Rightarrow>
             if i < length (ar_bufs ar) then
               (case ReadFull (ar_r ar) (ar_bufs ar ! i) of ((b, err), rest) \<Rightarrow>
                  Some (ar\<lparr>ar_r := rest,
                           ar_bufs := take i (ar_bufs ar) @ drop (Suc i) (ar_bufs ar),
                           ar_producer := P_Select \<lparr>seg_b = b, seg_err = err\<rparr>\<rparr>))
             else None))"

text \<open>
  A send on the channel \<open>c\<close> can proceed when the buffer has room, or, for a channel
  without buffer (\<open>ChannelSize = 0\<close>), when a call of Read is waiting in its \<open>select\<close>
  to receive: the segment is then handed to that Read, which takes it in its next step.
\<close>

definition c_ready :: "AsyncReader \<Rightarrow> bool" where
  "c_ready ar =
     (length (ar_c ar) < ar_ChannelSize ar \<or>
      (ar_ChannelSize ar = 0 \<and> ar_c ar = [] \<and>
       (case ar_consumer ar of C_Select l \<Rightarrow> True | C_Idle \<Rightarrow> False)))"

text \<open>
  The \<open>select\<close> of the goroutine, case \<open>ar.c <- segment{...}\<close>; then
  \<open>if err != nil { return }\<close>, and returning closes the channel.
\<close>

definition producer_send :: "AsyncReader \<Rightarrow> AsyncReader option" where
  "producer_send ar =
     (case ar_producer ar of
        P_Select s \<Rightarrow>
          if c_ready ar \<and> \<not> ar_c_closed ar then
            (if seg_err s \<noteq> None
             then Some (ar\<lparr>ar_c := ar_c ar @ [s], ar_c_closed := True, ar_producer := P_Returned\<rparr>)
             else Some (ar\<lparr>ar_c := ar_c ar @ [s], ar_producer := P_Loop\<rparr>))
          else None
      | _ \<Rightarrow> None)"

text \<open>The \<open>select\<close> of the goroutine, case \<open><-ar.abort\<close>: return, closing the channel.\<close>

definition producer_abort :: "AsyncReader \<Rightarrow> AsyncReader option" where
  "producer_abort ar =
     (case ar_producer ar of
        P_Select s \<Rightarrow>
          if ar_abort ar then Some (ar\<lparr>ar_c_closed := True, ar_producer := P_Returned\<rparr>)
          else None
      | _ \<Rightarrow> None)"

text \<open>
  The end of Read, after the loop, for \<open>len(b) = l\<close>: more buffered than asked for,
  something buffered, nothing buffered.
\<close>

definition Read_tail :: "nat \<Rightarrow> AsyncReader \<Rightarrow> AsyncReader" where
  "Read_tail l ar =
     (if length (ar_buf ar) > l then
        ar\<lparr>ar_buf := drop l (ar_buf ar), ar_consumer := C_Idle,
           ar_returned := ar_returned ar @ [(take l (ar_buf ar), None)]\<rparr>
      else if length (ar_buf ar) > 0 then
        ar\<lparr>ar_buf := [], ar_consumer := C_Idle,
           ar_returned := ar_returned ar @ [(ar_buf ar, None)]\<rparr>
      else
        ar\<lparr>ar_consumer := C_Idle, ar_returned := ar_returned ar @ [([], Some EOF)]\<rparr>)"

text \<open>
  The head of the loop of Read: \<open>for len(ar.buf) < len(b)\<close> either enters the
  \<open>select\<close> or falls through to the end of Read.
\<close>

definition Read_loop :: "nat \<Rightarrow> AsyncReader \<Rightarrow> AsyncReader" where
  "Read_loop l ar =
     (if length (ar_buf ar) < l then ar\<lparr>ar_consumer := C_Select l\<rparr> else Read_tail l ar)"

text \<open>A call \<open>Read(b)\<close> with \<open>len(b) = l\<close>, up to its first \<open>select\<close> or its return.\<close>

definition AsyncReader_Read :: "nat \<Rightarrow> AsyncReader \<Rightarrow> AsyncReader option" where
  "AsyncReader_Read l ar =
     (if ar_consumer ar = C_Idle then Some (Read_loop l ar) else None)"

text \<open>
  The \<open>select\<close> of Read, case \<open>s, open = <-ar.c\<close>: a queued segment is taken, or the
  channel is closed and drained; on an empty open channel the case cannot fire.
\<close>

definition Read_recv :: "AsyncReader \<Rightarrow> AsyncReader option" where
  "Read_recv ar =
     (case ar_consumer ar of
        C_Select l \<Rightarrow>
          (case ar_c ar of
             [] \<Rightarrow> if ar_c_closed ar then Some (Read_tail l ar) else None
           | s # rest \<Rightarrow>
               if seg_err s \<noteq> None \<and> seg_err s \<noteq> Some EOF \<and> seg_err s \<noteq> Some ErrUnexpectedEOF
               then Some (ar\<lparr>ar_c := rest, ar_consumer := C_Idle,
                              ar_returned := ar_returned ar @ [([], seg_err s)]\<rparr>)
               else Some (Read_loop l
                            (ar\<lparr>ar_c := rest, ar_buf := ar_buf ar @ seg_b s,
                                ar_bufs := ar_bufs ar @ [length (seg_b s)]\<rparr>)))
      | C_Idle \<Rightarrow> None)"

text \<open>The \<open>select\<close> of Read, case \<open><-ar.abort\<close>: \<open>return 0, nil\<close>.\<close>

definition Read_abort :: "AsyncReader \<Rightarrow> AsyncReader option" where
  "Read_abort ar =
     (case ar_consumer ar of
        C_Select l \<Rightarrow>
          if ar_abort ar
          then Some (ar\<lparr>ar_consumer := C_Idle, ar_returned := ar_returned ar @ [([], None)]\<rparr>)
          else None
      | C_Idle \<Rightarrow> None)"

text \<open>\<open>Close\<close>: \<open>close(ar.abort)\<close>; closing it a second time would panic.\<close>

definition AsyncReader_Close :: "AsyncReader \<Rightarrow> AsyncReader option" where
  "AsyncReader_Close ar = (if ar_abort ar then None else Some (ar\<lparr>ar_abort := True\<rparr>))"

fun ar_step :: "ar_action \<Rightarrow> AsyncReader \<Rightarrow> AsyncReader option" where
  "ar_step A_Start ar = AsyncReader_Start ar"
| "ar_step (A_Fill which) ar = producer_fill which ar"
| "ar_step A_Send ar = producer_send ar"
| "ar_step A_SendAbort ar = producer_abort ar"
| "ar_step (A_Read l) ar = AsyncReader_Read l ar"
| "ar_step A_Recv ar = Read_recv ar"
| "ar_step A_RecvAbort ar = Read_abort ar"
| "ar_step A_Close ar = AsyncReader_Close ar"

text \<open>A run: the actions taken one after the other; \<open>None\<close> when one cannot be taken.\<close>

fun ar_run :: "ar_action list \<Rightarrow> AsyncReader \<Rightarrow> AsyncReader option" where
  "ar_run [] ar = Some ar"
| "ar_run (a # as) ar = (case ar_step a ar of None \<Rightarrow> None | Some ar' \<Rightarrow> ar_run as ar')"

text \<open>The bytes that the calls of Read have handed to the caller, in order.\<close>

definition ar_delivered :: "AsyncReader \<Rightarrow> byte list" where
  "ar_delivered ar = concat (map fst (ar_returned ar))"

text \<open>A state with one segment queued and one byte of the source still unread.\<close>

definition ar_example :: AsyncReader where
  "ar_example =
     \<lparr> ar_r = [3], ar_c = [\<lparr>seg_b = [1, 2], seg_err = None\<rparr>], ar_c_closed = False,
       ar_abort = False, ar_bufs = [], ar_buf = [], ar_BufferSize = 2, ar_ChannelSize = 1,
       ar_producer = P_Loop, ar_consumer = C_Idle, ar_returned = [] \<rparr>"

subsection \<open>Writing in chunks\<close>

text \<open>
  The chunks written one after the other, as by a caller that goes on after an error; the
  errors returned are collected.
\<close>

fun ScannerWriter_Writes ::
  "ScannerWriter \<Rightarrow> byte list list \<Rightarrow> byte list list \<Rightarrow> (error option list) sw_result exec option"
where
  "ScannerWriter_Writes sc [] out = Some (Done ([], sc, out))"
| "ScannerWriter_Writes sc (c # cs) out =
     (case ScannerWriter_Write sc c out of
        None \<Rightarrow> None
      | Some Panic \<Rightarrow> Some Panic
      | Some (Done ((n, err), sc', out')) \<Rightarrow>
          (case ScannerWriter_Writes sc' cs out' of
             None \<Rightarrow> None
           | Some Panic \<Rightarrow> Some Panic
           | Some (Done (errs, sc'', out'')) \<Rightarrow> Some (Done (err # errs, sc'', out''))))"

text \<open>The tokens delivered to the callback by the Writes of the chunks and a Flush.\<close>

definition tokens_of_chunks :: "ScannerWriter \<Rightarrow> byte list list \<Rightarrow> byte list list exec option" where
  "tokens_of_chunks sc cs =
     (case ScannerWriter_Writes sc cs [] of
        None \<Rightarrow> None
      | Some Panic \<Rightarrow> Some Panic
      | Some (Done (errs, sc', out')) \<Rightarrow>
          (case ScannerWriter_Flush sc' out' of (e, sc'', out'') \<Rightarrow> Some (Done out'')))"

text \<open>
  A boundary function is stable under extension when appending data does not change what
  it has found: a token found in \<open>d\<close> is found, with the same advance, in every \<open>d @ e\<close>;
  and an advance without token (a skip) composes with what the function finds after the
  skip: on \<open>d @ e\<close> it answers either the same skip, when after the skip it asks for more
  data, or the skip added to what it answers after the skip.
\<close>

definition stable :: "SplitFunc \<Rightarrow> bool" where
  "stable split =
     (\<forall>d e adv tok. d \<noteq> [] \<and> split d False = (adv, tok, None) \<and> \<not> (adv = 0 \<and> tok = None) \<longrightarrow>
        (case tok of
           Some t \<Rightarrow> split (d @ e) False = (adv, Some t, None)
         | None \<Rightarrow>
             drop (nat adv) d @ e \<noteq> [] \<longrightarrow>
               (case split (drop (nat adv) d @ e) False of (adv', tok', err') \<Rightarrow>
                  if err' \<noteq> None then snd (snd (split (d @ e) False)) = err'
                  else if adv' = 0 \<and> tok' = None then split (d @ e) False = (adv, None, None)
                  else split (d @ e) False = (adv + adv', tok', None))))"

text \<open>
  What Write leaves pending is not empty, made the boundary function ask for more data,
  and fits the maximum buffer size.
\<close>

definition pending_ok :: "ScannerWriter \<Rightarrow> bool" where
  "pending_ok sc =
     (case sw_buf sc of
        None \<Rightarrow> True
      | Some r \<Rightarrow> r \<noteq> [] \<and> sw_splitFunc sc r False = (0, None, None) \<and>
                  int (length r) \<le> sw_maxBufSize sc)"

text \<open>A boundary function that makes one token of whatever it is given.\<close>

definition ScanAll :: SplitFunc where
  "ScanAll data atEOF = (int (length data), Some data, None)"

text \<open>
  The reference of chunk independence: the boundary function applied to the whole input
  at once, in the way of a \<open>bufio.Scanner\<close> that holds the whole input. The function is
  called on what is left; a token is taken and the data advanced; when the function asks
  for more data (no advance, no token) it is told that there is none (\<open>atEOF\<close>), and asked
  again. The scan ends when nothing is left, or on an error, or when the function, told
  that no more data will come, still finds nothing, or when it does not advance within
  the data.
\<close>

function scan_input :: "SplitFunc \<Rightarrow> bool \<Rightarrow> byte list \<Rightarrow> byte list list" where
  "scan_input split atEOF data =
     (if data = [] then []
      else
        (case split data atEOF of (adv, tok, err) \<Rightarrow>
           if err \<noteq> None then []
           else if adv = 0 \<and> tok = None then
             (if atEOF then [] else scan_input split True data)
           else
             (case tok of None \<Rightarrow> [] | Some t \<Rightarrow> [t]) @
             (if 0 < adv \<and> adv \<le> int (length data)
              then scan_input split atEOF (drop (nat adv) data)
              else [])))"
  by pat_completeness auto
termination
  by (relation "measure (\<lambda>(split, atEOF, data). 2 * length data + (if atEOF then 0 else 1))")
    auto

declare scan_input.simps [simp del]

definition tokens_of_input :: "SplitFunc \<Rightarrow> byte list \<Rightarrow> byte list list" where
  "tokens_of_input split data = scan_input split False data"

text \<open>
  A boundary function takes all that is left at the end of the input when, on data for
  which it asked for more, its answer at EOF leaves nothing behind to be scanned (it
  advances over all the data, or does not advance within the data at all) and is not an
  empty token.
\<close>

definition takes_all_at_EOF :: "SplitFunc \<Rightarrow> bool" where
  "takes_all_at_EOF split =
     (\<forall>d adv tok. d \<noteq> [] \<and> split d False = (0, None, None) \<and> split d True = (adv, tok, None) \<longrightarrow>
        tok \<noteq> Some [] \<and> (adv \<le> 0 \<or> int (length d) \<le> adv))"

text \<open>
  A boundary function whose tokens are three bytes long; at the end of the input it makes
  a token of one byte of what is left (as \<open>bufio.ScanRunes\<close> does of an incomplete
  encoding).
\<close>

definition ScanTriples :: SplitFunc where
  "ScanTriples data atEOF =
     (if 3 \<le> length data then (3, Some (take 3 data), None)
      else if atEOF \<and> data \<noteq> [] then (1, Some (take 1 data), None)
      else (0, None, None))"

text \<open>
  \<open>bufio.ScanLines\<close>: lines end at byte 10, a byte 13 before it is dropped; at EOF what is
  left is a last line.
\<close>

definition dropCR :: "byte list \<Rightarrow> byte list" where
  "dropCR data = (if data \<noteq> [] \<and> last data = 13 then butlast data else data)"

definition ScanLines :: SplitFunc where
  "ScanLines data atEOF =
     (if atEOF \<and> data = [] then (0, None, None)
      else if 10 \<in> set data then
        (int (length (takeWhile (\<lambda>b. b \<noteq> 10) data)) + 1,
         Some (dropCR (takeWhile (\<lambda>b. b \<noteq> 10) data)), None)
      else if atEOF then (int (length data), Some (dropCR data), None)
      else (0, None, None))"

section \<open>MultiWriter (multi\_writer.go)\<close>

text \<open>
  A sink is the \<open>io.Writer\<close> behind one \<open>mwWriter\<close>. What its \<open>Write\<close> answers may depend
  on the calls it has had, so \<open>snk_write\<close> is given the calls so far (the data, and the
  count and error returned) and the data. \<open>snk_closer\<close> is the \<open>Close\<close> method when the
  sink is an \<open>io.WriteCloser\<close>. \<open>snk_log\<close> records the calls of \<open>Write\<close> made and
  \<open>snk_closed\<close> what \<open>Close\<close> returned, once called.
\<close>

type_synonym sink_call = "byte list \<times> int \<times> error option"

record sink =
  snk_write :: "sink_call list \<Rightarrow> byte list \<Rightarrow> int \<times> error option"
  snk_closer :: "(sink_call list \<Rightarrow> error option) option"
  snk_log :: "sink_call list"
  snk_closed :: "error option option"

text \<open>
  Where the goroutine of one \<open>mwWriter\<close> stands: not spawned; at \<open>for data := range
  mww.wc\<close>; at \<open>mw.err <- err\<close> after a failed or short write; at \<open>mw.err <- err\<close> in the
  deferred function after a failed \<open>Close\<close> of the sink; finished (\<open>mw.wg.Done()\<close> has run).
\<close>

datatype mw_worker = W_NotStarted | W_Range | W_SendWriteErr error | W_SendCloseErr error | W_Done

record mwWriter =
  mww_w :: sink
  mww_wc :: "byte list list"
  mww_wc_closed :: bool
  mww_worker :: mw_worker

text \<open>
  Where the caller stands: outside any call; inside \<open>Write(data)\<close> at the \<open>select\<close> for
  the writer of the given index; inside \<open>Close\<close> at \<open>mw.wg.Wait()\<close>; stopped by a panic.
\<close>

datatype mw_main = M_Idle | M_Write "byte list" nat | M_CloseWait | M_Panicked

text \<open>
  What a call has returned: \<open>WriteRet data n err\<close> for \<open>Write(data)\<close> returning
  \<open>(n, err)\<close>, and \<open>CloseRet err\<close> for \<open>Close()\<close>.
\<close>

datatype mw_ret = WriteRet "byte list" nat "error option" | CloseRet "error option"

record MultiWriter =
  mw_writers :: "mwWriter list"
  mw_WriteChanLength :: nat
  mw_inited :: bool
  mw_closed :: bool
  mw_err :: "error list"
  mw_err_closed :: bool
  mw_wg :: nat
  mw_main :: mw_main
  mw_returned :: "mw_ret list"

definition NewMultiWriter :: "sink list \<Rightarrow> MultiWriter" where
  "NewMultiWriter ws =
     \<lparr> mw_writers =
         map (\<lambda>w. \<lparr>mww_w = w, mww_wc = [], mww_wc_closed = False, mww_worker = W_NotStarted\<rparr>) ws,
       mw_WriteChanLength = 32, mw_inited = False, mw_closed = False,
       mw_err = [], mw_err_closed = False, mw_wg = 0, mw_main = M_Idle, mw_returned = [] \<rparr>"

text \<open>\<open>init\<close>: a channel, a count in the wait group and a goroutine for each writer.\<close>

definition MultiWriter_init :: "MultiWriter \<Rightarrow> MultiWriter" where
  "MultiWriter_init mw =
     mw\<lparr>mw_inited := True,
        mw_writers :=
          map (\<lambda>mww. mww\<lparr>mww_wc := [], mww_wc_closed := False, mww_worker := W_Range\<rparr>)
            (mw_writers mw),
        mw_wg := mw_wg mw + length (mw_writers mw)\<rparr>"

text \<open>
  The loop \<open>for _, mww := range mw.writers\<close> of Write, arriving at the writer of index
  \<open>i\<close>: past the last writer the call returns \<open>len(data), nil\<close>; otherwise the caller
  stands at the \<open>select\<close>.
\<close>

definition Write_next :: "byte list \<Rightarrow> nat \<Rightarrow> MultiWriter \<Rightarrow> MultiWriter" where
  "Write_next data i mw =
     (if i < length (mw_writers mw) then mw\<lparr>mw_main := M_Write data i\<rparr>
      else mw\<lparr>mw_main := M_Idle, mw_returned := mw_returned mw @ [WriteRet data (length data) None]\<rparr>)"

text \<open>A call \<open>Write(data)\<close>, up to its first \<open>select\<close> or its return.\<close>

definition MultiWriter_Write :: "byte list \<Rightarrow> MultiWriter \<Rightarrow> MultiWriter option" where
  "MultiWriter_Write data mw =
     (if mw_main mw \<noteq> M_Idle then None
      else if mw_closed mw
      then Some (mw\<lparr>mw_returned := mw_returned mw @ [WriteRet data 0 (Some ErrClosed)]\<rparr>)
      else Some (Write_next data 0 (if mw_inited mw then mw else MultiWriter_init mw)))"

text \<open>
  A send on the channel of a writer can proceed when the buffer has room, or, for a
  channel without buffer, when the goroutine is waiting to receive.
\<close>

definition wc_ready :: "MultiWriter \<Rightarrow> mwWriter \<Rightarrow> bool" where
  "wc_ready mw mww =
     (length (mww_wc mww) < mw_WriteChanLength mw \<or>
      (mw_WriteChanLength mw = 0 \<and> mww_wc mww = [] \<and> mww_worker mww = W_Range))"

text \<open>
  The \<open>select\<close> of Write, case \<open>mww.wc <- data\<close>. A send on a closed channel panics.
\<close>

definition Write_send :: "MultiWriter \<Rightarrow> MultiWriter option" where
  "Write_send mw =
     (case mw_main mw of
        M_Write data i \<Rightarrow>
          if i < length (mw_writers mw) then
            (let mww = mw_writers mw ! i in
             if mww_wc_closed mww then Some (mw\<lparr>mw_main := M_Panicked\<rparr>)
             else if wc_ready mw mww then
               Some (Write_next data (Suc i)
                       (mw\<lparr>mw_writers := (mw_writers mw)[i := mww\<lparr>mww_wc := mww_wc mww @ [data]\<rparr>]\<rparr>))
             else None)
          else None
      | _ \<Rightarrow> None)"

text \<open>
  The \<open>select\<close> of Write, case \<open>err := <-mw.err\<close>: \<open>return 0, err\<close>. A closed and drained
  channel yields \<open>nil\<close>.
\<close>

definition Write_recv_err :: "MultiWriter \<Rightarrow> MultiWriter option" where
  "Write_recv_err mw =
     (case mw_main mw of
        M_Write data i \<Rightarrow>
          (case mw_err mw of
             e # rest \<Rightarrow>
               Some (mw\<lparr>mw_err := rest, mw_main := M_Idle,
                        mw_returned := mw_returned mw @ [WriteRet data 0 (Some e)]\<rparr>)
           | [] \<Rightarrow>
               if mw_err_closed mw
               then Some (mw\<lparr>mw_main := M_Idle, mw_returned := mw_returned mw @ [WriteRet data 0 None]\<rparr>)
               else None)
      | _ \<Rightarrow> None)"

text \<open>
  The deferred function of the goroutine of writer \<open>i\<close>: close the sink when it is an
  \<open>io.WriteCloser\<close>; on an error go on to send it; else \<open>mw.wg.Done()\<close>.
\<close>

definition worker_deferred :: "nat \<Rightarrow> MultiWriter \<Rightarrow> MultiWriter" where
  "worker_deferred i mw =
     (let mww = mw_writers mw ! i; w = mww_w mww in
      case snk_closer w of
        None \<Rightarrow>
          mw\<lparr>mw_writers := (mw_writers mw)[i := mww\<lparr>mww_worker := W_Done\<rparr>], mw_wg := mw_wg mw - 1\<rparr>
      | Some cl \<Rightarrow>
          (case cl (snk_log w) of
             Some e \<Rightarrow>
               mw\<lparr>mw_writers := (mw_writers mw)
                     [i := mww\<lparr>mww_w := w\<lparr>snk_closed := Some (Some e)\<rparr>,
                              mww_worker := W_SendCloseErr e\<rparr>]\<rparr>
           | None \<Rightarrow>
               mw\<lparr>mw_writers := (mw_writers mw)
                     [i := mww\<lparr>mww_w := w\<lparr>snk_closed := Some None\<rparr>, mww_worker := W_Done\<rparr>],
                  mw_wg := mw_wg mw - 1\<rparr>))"

text \<open>
  One step of the goroutine of writer \<open>i\<close>, from one blocking point to the next: take the
  next data from the channel and write it to the sink, or leave the loop when the channel
  is closed and drained; or complete a send on \<open>mw.err\<close>, whose buffer holds one error.
\<close>

definition worker_step :: "nat \<Rightarrow> MultiWriter \<Rightarrow> MultiWriter option" where
  "worker_step i mw =
     (if i < length (mw_writers mw) then
        (let mww = mw_writers mw ! i; w = mww_w mww in
         case mww_worker mww of
           W_Range \<Rightarrow>
             (case mww_wc mww of
                [] \<Rightarrow> if mww_wc_closed mww then Some (worker_deferred i mw) else None
              | data # rest \<Rightarrow>
                  (case snk_write w (snk_log w) data of (n, err) \<Rightarrow>
                     (let w' = w\<lparr>snk_log := snk_log w @ [(data, n, err)]\<rparr>;
                          pc = (case err of
                                  Some e \<Rightarrow> W_SendWriteErr e
                                | None \<Rightarrow> if n < int (length data) then W_SendWriteErr ErrShortWrite
                                          else W_Range)
                      in Some (mw\<lparr>mw_writers := (mw_writers mw)
                                  [i := mww\<lparr>mww_w := w', mww_wc := rest, mww_worker := pc\<rparr>]\<rparr>))))
         | W_SendWriteErr e \<Rightarrow>
             if mw_err_closed mw then Some (mw\<lparr>mw_main := M_Panicked\<rparr>)
             else if length (mw_err mw) < 1
             then Some (worker_deferred i (mw\<lparr>mw_err := mw_err mw @ [e]\<rparr>))
             else None
         | W_SendCloseErr e \<Rightarrow>
             if mw_err_closed mw then Some (mw\<lparr>mw_main := M_Panicked\<rparr>)
             else if length (mw_err mw) < 1
             then Some (mw\<lparr>mw_err := mw_err mw @ [e],
                           mw_writers := (mw_writers mw)[i := mww\<lparr>mww_worker := W_Done\<rparr>],
                           mw_wg := mw_wg mw - 1\<rparr>)
             else None
         | _ \<Rightarrow> None)
      else None)"

text \<open>
  A call \<open>Close()\<close>, up to \<open>mw.wg.Wait()\<close> or its return: \<open>mw.closed = true\<close>, and on an
  initialised instance \<open>close(mww.wc)\<close> for each writer. Closing a closed channel panics.
\<close>

definition MultiWriter_Close :: "MultiWriter \<Rightarrow> MultiWriter option" where
  "MultiWriter_Close mw =
     (if mw_main mw \<noteq> M_Idle then None
      else if mw_inited mw then
        (if \<exists>mww \<in> set (mw_writers mw). mww_wc_closed mww
         then Some (mw\<lparr>mw_closed := True, mw_main := M_Panicked\<rparr>)
         else Some (mw\<lparr>mw_closed := True,
                       mw_writers := map (\<lambda>mww. mww\<lparr>mww_wc_closed := True\<rparr>) (mw_writers mw),
                       mw_main := M_CloseWait\<rparr>))
      else Some (mw\<lparr>mw_closed := True, mw_returned := mw_returned mw @ [CloseRet None]\<rparr>))"

text \<open>
  The rest of \<open>Close\<close>, once \<open>mw.wg.Wait()\<close> lets it pass: \<open>close(mw.err)\<close>, which panics on
  a closed channel, and \<open>return <-mw.err\<close>, the buffered error or \<open>nil\<close>.
\<close>

definition Close_finish :: "MultiWriter \<Rightarrow> MultiWriter option" where
  "Close_finish mw =
     (if mw_main mw = M_CloseWait \<and> mw_wg mw = 0 then
        (if mw_err_closed mw then Some (mw\<lparr>mw_main := M_Panicked\<rparr>)
         else
           (case mw_err mw of
              [] \<Rightarrow> Some (mw\<lparr>mw_err_closed := True, mw_main := M_Idle,
                            mw_returned := mw_returned mw @ [CloseRet None]\<rparr>)
            | e # rest \<Rightarrow>
                Some (mw\<lparr>mw_err := rest, mw_err_closed := True, mw_main := M_Idle,
                         mw_returned := mw_returned mw @ [CloseRet (Some e)]\<rparr>)))
      else None)"

datatype mw_action =
    MA_Write "byte list"
  | MA_Send
  | MA_RecvErr
  | MA_Close
  | MA_CloseFinish
  | MA_Worker nat

fun mw_step :: "mw_action \<Rightarrow> MultiWriter \<Rightarrow> MultiWriter option" where
  "mw_step (MA_Write data) mw = MultiWriter_Write data mw"
| "mw_step MA_Send mw = Write_send mw"
| "mw_step MA_RecvErr mw = Write_recv_err mw"
| "mw_step MA_Close mw = MultiWriter_Close mw"
| "mw_step MA_CloseFinish mw = Close_finish mw"
| "mw_step (MA_Worker i) mw = worker_step i mw"

fun mw_run :: "mw_action list \<Rightarrow> MultiWriter \<Rightarrow> MultiWriter option" where
  "mw_run [] mw = Some mw"
| "mw_run (a # as) mw = (case mw_step a mw of None \<Rightarrow> None | Some mw' \<Rightarrow> mw_run as mw')"

text \<open>
  Concrete sinks: one that takes every write and has no \<open>Close\<close>; one that takes one byte
  less than it is given (\<open>testShortWriter\<close> of the tests).
\<close>

definition ok_write :: "sink_call list \<Rightarrow> byte list \<Rightarrow> int \<times> error option" where
  "ok_write calls data = (int (length data), None)"

definition short_write :: "sink_call list \<Rightarrow> byte list \<Rightarrow> int \<times> error option" where
  "short_write calls data = (int (length data) - 1, None)"

definition ok_sink :: sink where
  "ok_sink = \<lparr> snk_write = ok_write, snk_closer = None, snk_log = [], snk_closed = None \<rparr>"

definition short_sink :: sink where
  "short_sink = \<lparr> snk_write = short_write, snk_closer = None, snk_log = [], snk_closed = None \<rparr>"

section \<open>Broadcaster and BroadcasterReader (broadcaster.go)\<close>

text \<open>
  The \<open>io.Reader\<close> behind a Broadcaster, as a finite script: each call of \<open>Read(p)\<close> hands
  out the next chunk, or as much of it as fits \<open>p\<close>; once the chunks are used up every
  call returns no bytes and the error \<open>src_end\<close> (\<open>io.EOF\<close> for a source that ends
  cleanly).
\<close>

record source =
  src_chunks :: "byte list list"
  src_end :: error

text \<open>
  The inner loop of Broadcast, \<open>for n < len(buf) && err == nil\<close>, for a buffer of \<open>k\<close>
  bytes of which \<open>acc\<close> are filled: the bytes read, whether the source has returned its
  error, and the chunks left.
\<close>

fun fill :: "nat \<Rightarrow> byte list \<Rightarrow> byte list list \<Rightarrow> byte list \<times> bool \<times> byte list list" where
  "fill k acc [] = (if length acc < k then (acc, True, []) else (acc, False, []))"
| "fill k acc (c # cs) =
     (if length acc < k then
        (if length c \<le> k - length acc then fill k (acc @ c) cs
         else (acc @ take (k - length acc) c, False, drop (k - length acc) c # cs))
      else (acc, False, c # cs))"

text \<open>
  Where a caller of a BroadcasterReader stands: outside any call; inside \<open>Read(b)\<close> at the
  \<open>select\<close> of the loop, with \<open>len(b)\<close>; inside \<open>Close\<close> at \<open>br.err <- ErrClosed\<close>.
\<close>

datatype br_pc = R_Idle | R_Select nat | R_CloseSend

text \<open>
  A BroadcasterReader: the fields of the struct, with each channel as its queue and a
  flag for closed (\<open>br_shutdown\<close> is the closed flag of the channel \<open>shutdown\<close>). The
  values on \<open>br.err\<close> are errors or \<open>nil\<close>. \<open>br_err_sent\<close> records every value ever sent on
  \<open>br.err\<close> and \<open>br_returned\<close> what the calls of Read have returned.
\<close>

record BroadcasterReader =
  br_buf :: "byte list"
  br_data :: "byte list list"
  br_data_closed :: bool
  br_err :: "error option list"
  br_err_closed :: bool
  br_shutdown :: bool
  br_last :: "error option"
  br_pc :: br_pc
  br_err_sent :: "error option list"
  br_returned :: "(byte list \<times> error option) list"

text \<open>
  Where Broadcast stands: not called; at the head of its outer loop; at the \<open>select\<close> for
  the first of the readers still to be served with the buffer just read; in the deferred
  function at \<open>br.err <- err\<close> for the first of the readers still to be told, with the
  value that Broadcast is returning; returned, with that value.
\<close>

datatype bc_pc =
    B_NotStarted
  | B_Loop
  | B_Distribute "byte list" "nat list"
  | B_DeferErr "nat list" "error option"
  | B_Returned "error option"

text \<open>
  The Broadcaster with its readers around it. A reader is named by its index in
  \<open>bc_readers\<close>; \<open>bc_brs\<close> is the slice \<open>b.brs\<close> of the registered readers, \<open>bc_abort\<close> the
  closed flag of the channel \<open>abort\<close>, \<open>bc_err\<close> the local variable \<open>err\<close> of Broadcast, and
  \<open>bc_panicked\<close> says that some goroutine has panicked.
\<close>

record Broadcaster =
  bc_r :: source
  bc_ReadChanLength :: nat
  bc_ReadBufferSize :: nat
  bc_brs :: "nat list"
  bc_abort :: bool
  bc_readers :: "BroadcasterReader list"
  bc_pc :: bc_pc
  bc_err :: "error option"
  bc_panicked :: bool

definition NewBroadcaster :: "source \<Rightarrow> Broadcaster" where
  "NewBroadcaster r =
     \<lparr> bc_r = r, bc_ReadChanLength = 32, bc_ReadBufferSize = 8 * 2 ^ 10, bc_brs = [],
       bc_abort = False, bc_readers = [], bc_pc = B_NotStarted, bc_err = None,
       bc_panicked = False \<rparr>"

definition NewReader :: "Broadcaster \<Rightarrow> Broadcaster" where
  "NewReader b =
     b\<lparr>bc_readers := bc_readers b @
          [\<lparr> br_buf = [], br_data = [], br_data_closed = False, br_err = [],
             br_err_closed = False, br_shutdown = False, br_last = None, br_pc = R_Idle,
             br_err_sent = [], br_returned = [] \<rparr>],
       bc_brs := bc_brs b @ [length (bc_readers b)]\<rparr>"

text \<open>
  \<open>deleteBroadcasterReader\<close>: at the first index \<open>i\<close> holding \<open>br\<close>, put the first element
  into place \<open>i\<close> (when \<open>i > 0\<close>) and slice the first element off.
\<close>

fun index_of :: "nat \<Rightarrow> nat list \<Rightarrow> nat option" where
  "index_of br [] = None"
| "index_of br (x # xs) =
     (if x = br then Some 0 else (case index_of br xs of None \<Rightarrow> None | Some i \<Rightarrow> Some (Suc i)))"

definition deleteBroadcasterReader :: "nat list \<Rightarrow> nat \<Rightarrow> nat list" where
  "deleteBroadcasterReader brs br =
     (case index_of br brs of
        None \<Rightarrow> brs
      | Some i \<Rightarrow> tl (if i > 0 then brs[i := brs ! 0] else brs))"

text \<open>
  The deferred function of Broadcast, second loop, \<open>br.err <- err\<close> for the readers still
  to be told: a send blocks while the two places of the channel are taken and panics on
  a closed channel. After the last send Broadcast has returned.
\<close>

fun defer_send :: "nat list \<Rightarrow> error option \<Rightarrow> Broadcaster \<Rightarrow> Broadcaster" where
  "defer_send [] ret b = b\<lparr>bc_pc := B_Returned ret\<rparr>"
| "defer_send (i # rest) ret b =
     (let r = bc_readers b ! i in
      if br_err_closed r then b\<lparr>bc_panicked := True\<rparr>
      else if length (br_err r) < 2 then
        defer_send rest ret
          (b\<lparr>bc_readers := (bc_readers b)
               [i := r\<lparr>br_err := br_err r @ [bc_err b], br_err_sent := br_err_sent r @ [bc_err b]\<rparr>]\<rparr>)
      else b\<lparr>bc_pc := B_DeferErr (i # rest) ret\<rparr>)"

text \<open>
  The deferred function of Broadcast, first loop: \<open>close(br.data)\<close> for every registered
  reader; closing a closed channel panics.
\<close>

fun defer_close :: "nat list \<Rightarrow> Broadcaster \<Rightarrow> Broadcaster" where
  "defer_close [] b = b"
| "defer_close (i # rest) b =
     (let r = bc_readers b ! i in
      if br_data_closed r then b\<lparr>bc_panicked := True\<rparr>
      else defer_close rest (b\<lparr>bc_readers := (bc_readers b)[i := r\<lparr>br_data_closed := True\<rparr>]\<rparr>))"

text \<open>
  Broadcast returns \<open>ret\<close>: the deferred function runs. It tests the local variable
  \<open>err\<close>, which no \<open>return\<close> statement assigns.
\<close>

definition deferred :: "error option \<Rightarrow> Broadcaster \<Rightarrow> Broadcaster" where
  "deferred ret b =
     (let b' = defer_close (bc_brs b) b in
      if bc_panicked b' then b'
      else if bc_err b' \<noteq> Some ErrAborted then defer_send (bc_brs b') ret b'
      else b'\<lparr>bc_pc := B_Returned ret\<rparr>)"

text \<open>
  \<open>if err != nil\<close> at the end of the outer loop: return \<open>nil\<close> for \<open>io.EOF\<close> and the error
  otherwise, or go back to the head of the loop.
\<close>

definition after_distribute :: "Broadcaster \<Rightarrow> Broadcaster" where
  "after_distribute b =
     (case bc_err b of
        Some e \<Rightarrow> deferred (if e = EOF then None else Some e) b
      | None \<Rightarrow> b\<lparr>bc_pc := B_Loop\<rparr>)"

text \<open>
  The loop \<open>for _, br := range b.brs\<close> over the readers still to be served. The range
  expression is evaluated once; a removal writes only to the place of the reader being
  served, so the readers still to come are those of the slice as it was.
\<close>

definition distribute :: "byte list \<Rightarrow> nat list \<Rightarrow> Broadcaster \<Rightarrow> Broadcaster" where
  "distribute buf todo b =
     (case todo of [] \<Rightarrow> after_distribute b | i # rest \<Rightarrow> b\<lparr>bc_pc := B_Distribute buf todo\<rparr>)"

text \<open>The call of Broadcast: \<open>var err error\<close>, the \<open>defer\<close>, and into the loop.\<close>

definition Broadcaster_Broadcast :: "Broadcaster \<Rightarrow> Broadcaster option" where
  "Broadcaster_Broadcast b =
     (if bc_pc b = B_NotStarted then Some (b\<lparr>bc_err := None, bc_pc := B_Loop\<rparr>) else None)"

text \<open>
  One pass of the outer loop up to the first \<open>select\<close>: fill a buffer of
  \<open>ReadBufferSize\<close> bytes, and with \<open>n > 0\<close> go through the registered readers.
\<close>

definition Broadcast_iterate :: "Broadcaster \<Rightarrow> Broadcaster option" where
  "Broadcast_iterate b =
     (if bc_pc b = B_Loop then
        (case fill (bc_ReadBufferSize b) [] (src_chunks (bc_r b)) of (buf, ended, rest) \<Rightarrow>
           (let b' = b\<lparr>bc_r := (bc_r b)\<lparr>src_chunks := rest\<rparr>,
                       bc_err := (if ended then Some (src_end (bc_r b)) else None)\<rparr>
            in Some (if length buf > 0 then distribute buf (bc_brs b') b' else after_distribute b')))
      else None)"

text \<open>
  A send on the data channel of a reader can proceed when the buffer has room, or, for a
  channel without buffer, when the reader is waiting to receive.
\<close>

definition data_ready :: "Broadcaster \<Rightarrow> BroadcasterReader \<Rightarrow> bool" where
  "data_ready b r =
     (length (br_data r) < bc_ReadChanLength b \<or>
      (bc_ReadChanLength b = 0 \<and> br_data r = [] \<and>
       (case br_pc r of R_Select l \<Rightarrow> True | _ \<Rightarrow> False)))"

text \<open>The \<open>select\<close> of Broadcast, case \<open>br.data <- buf\<close>.\<close>

definition Broadcast_send :: "Broadcaster \<Rightarrow> Broadcaster option" where
  "Broadcast_send b =
     (case bc_pc b of
        B_Distribute buf (i # rest) \<Rightarrow>
          (let r = bc_readers b ! i in
           if br_data_closed r then Some (b\<lparr>bc_panicked := True\<rparr>)
           else if data_ready b r then
             Some (distribute buf rest
                     (b\<lparr>bc_readers := (bc_readers b)[i := r\<lparr>br_data := br_data r @ [buf]\<rparr>]\<rparr>))
           else None)
      | _ \<Rightarrow> None)"

text \<open>
  The \<open>select\<close> of Broadcast, case \<open><-br.shutdown\<close>: close both channels of the reader
  and remove it from \<open>b.brs\<close>.
\<close>

definition Broadcast_shutdown :: "Broadcaster \<Rightarrow> Broadcaster option" where
  "Broadcast_shutdown b =
     (case bc_pc b of
        B_Distribute buf (i # rest) \<Rightarrow>
          (let r = bc_readers b ! i in
           if br_shutdown r then
             (if br_data_closed r \<or> br_err_closed r then Some (b\<lparr>bc_panicked := True\<rparr>)
              else
                Some (distribute buf rest
                        (b\<lparr>bc_readers := (bc_readers b)
                              [i := r\<lparr>br_data_closed := True, br_err_closed := True\<rparr>],
                           bc_brs := deleteBroadcasterReader (bc_brs b) i\<rparr>)))
           else None)
      | _ \<Rightarrow> None)"

text \<open>The \<open>select\<close> of Broadcast, case \<open><-b.abort\<close>: \<open>return ErrAborted\<close>.\<close>

definition Broadcast_abort :: "Broadcaster \<Rightarrow> Broadcaster option" where
  "Broadcast_abort b =
     (case bc_pc b of
        B_Distribute buf (i # rest) \<Rightarrow>
          if bc_abort b then Some (deferred (Some ErrAborted) b) else None
      | _ \<Rightarrow> None)"

text \<open>A send of the deferred function that was blocked goes through.\<close>

definition Broadcast_defer_send :: "Broadcaster \<Rightarrow> Broadcaster option" where
  "Broadcast_defer_send b =
     (case bc_pc b of
        B_DeferErr (i # rest) ret \<Rightarrow>
          if length (br_err (bc_readers b ! i)) < 2 \<or> br_err_closed (bc_readers b ! i)
          then Some (defer_send (i # rest) ret b)
          else None
      | _ \<Rightarrow> None)"

text \<open>\<open>Abort\<close>: \<open>close(b.abort)\<close>.\<close>

definition Broadcaster_Abort :: "Broadcaster \<Rightarrow> Broadcaster" where
  "Broadcaster_Abort b = (if bc_abort b then b\<lparr>bc_panicked := True\<rparr> else b\<lparr>bc_abort := True\<rparr>)"

text \<open>
  The end of \<open>Read(b)\<close> of a reader, after the loop, for \<open>len(b) = l\<close>: hand out buffered
  bytes, or with nothing buffered take a value from \<open>br.err\<close> if one is there (a closed
  and empty channel yields \<open>nil\<close>) and return \<open>0, br.last\<close>.
\<close>

definition BroadcasterReader_tail :: "nat \<Rightarrow> BroadcasterReader \<Rightarrow> BroadcasterReader" where
  "BroadcasterReader_tail l r =
     (if length (br_buf r) > l then
        r\<lparr>br_buf := drop l (br_buf r), br_pc := R_Idle,
          br_returned := br_returned r @ [(take l (br_buf r), None)]\<rparr>
      else if length (br_buf r) > 0 then
        r\<lparr>br_buf := [], br_pc := R_Idle, br_returned := br_returned r @ [(br_buf r, None)]\<rparr>
      else
        (case br_err r of
           e # rest \<Rightarrow>
             r\<lparr>br_err := rest, br_last := e, br_pc := R_Idle,
               br_returned := br_returned r @ [([], e)]\<rparr>
         | [] \<Rightarrow>
             if br_err_closed r
             then r\<lparr>br_last := None, br_pc := R_Idle, br_returned := br_returned r @ [([], None)]\<rparr>
             else r\<lparr>br_pc := R_Idle, br_returned := br_returned r @ [([], br_last r)]\<rparr>))"

text \<open>The head of the loop of Read: into the \<open>select\<close>, or on to the end of Read.\<close>

definition BroadcasterReader_loop :: "nat \<Rightarrow> BroadcasterReader \<Rightarrow> BroadcasterReader" where
  "BroadcasterReader_loop l r =
     (if length (br_buf r) < l then r\<lparr>br_pc := R_Select l\<rparr> else BroadcasterReader_tail l r)"

text \<open>A call \<open>Read(b)\<close> with \<open>len(b) = l\<close>, up to its first \<open>select\<close> or its return.\<close>

definition BroadcasterReader_Read :: "nat \<Rightarrow> BroadcasterReader \<Rightarrow> BroadcasterReader option" where
  "BroadcasterReader_Read l r =
     (if br_pc r \<noteq> R_Idle then None
      else if br_last r = Some ErrClosed \<or> br_last r = Some ErrAborted
      then Some (r\<lparr>br_returned := br_returned r @ [([], br_last r)]\<rparr>)
      else Some (BroadcasterReader_loop l r))"

text \<open>The \<open>select\<close> of Read, case \<open>data, open := <-br.data\<close>.\<close>

definition BroadcasterReader_recv :: "BroadcasterReader \<Rightarrow> BroadcasterReader option" where
  "BroadcasterReader_recv r =
     (case br_pc r of
        R_Select l \<Rightarrow>
          (case br_data r of
             [] \<Rightarrow> if br_data_closed r then Some (BroadcasterReader_tail l r) else None
           | d # rest \<Rightarrow> Some (BroadcasterReader_loop l (r\<lparr>br_data := rest, br_buf := br_buf r @ d\<rparr>)))
      | _ \<Rightarrow> None)"

text \<open>The \<open>select\<close> of Read, case \<open><-br.b.abort\<close>, given that \<open>abort\<close> is closed.\<close>

definition BroadcasterReader_abort :: "BroadcasterReader \<Rightarrow> BroadcasterReader option" where
  "BroadcasterReader_abort r =
     (case br_pc r of
        R_Select l \<Rightarrow>
          Some (r\<lparr>br_last := Some ErrAborted, br_pc := R_Idle,
                  br_returned := br_returned r @ [([], Some ErrAborted)]\<rparr>)
      | _ \<Rightarrow> None)"

text \<open>
  \<open>Close\<close> of a reader: \<open>close(br.shutdown)\<close>, then \<open>br.err <- ErrClosed\<close>. The result is
  the reader and whether the call panicked.
\<close>

definition BroadcasterReader_Close :: "BroadcasterReader \<Rightarrow> (BroadcasterReader \<times> bool) option" where
  "BroadcasterReader_Close r =
     (if br_pc r \<noteq> R_Idle then None
      else if br_shutdown r then Some (r, True)
      else Some (r\<lparr>br_shutdown := True, br_pc := R_CloseSend\<rparr>, False))"

definition BroadcasterReader_Close_send :: "BroadcasterReader \<Rightarrow> (BroadcasterReader \<times> bool) option"
where
  "BroadcasterReader_Close_send r =
     (if br_pc r \<noteq> R_CloseSend then None
      else if br_err_closed r then Some (r, True)
      else if length (br_err r) < 2
      then Some (r\<lparr>br_err := br_err r @ [Some ErrClosed],
                    br_err_sent := br_err_sent r @ [Some ErrClosed], br_pc := R_Idle\<rparr>, False)
      else None)"

datatype bc_action =
    BA_NewReader
  | BA_Broadcast
  | BA_Iterate
  | BA_Send
  | BA_Shutdown
  | BA_SelectAbort
  | BA_DeferSend
  | BA_Abort
  | BA_Read nat nat
  | BA_Recv nat
  | BA_ReadAbort nat
  | BA_Close nat
  | BA_CloseSend nat

text \<open>A step of reader \<open>i\<close> inside the Broadcaster.\<close>

definition on_reader ::
  "nat \<Rightarrow> (BroadcasterReader \<Rightarrow> BroadcasterReader option) \<Rightarrow> Broadcaster \<Rightarrow> Broadcaster option" where
  "on_reader i f b =
     (if i < length (bc_readers b) then
        (case f (bc_readers b ! i) of
           None \<Rightarrow> None
         | Some r' \<Rightarrow> Some (b\<lparr>bc_readers := (bc_readers b)[i := r']\<rparr>))
      else None)"

definition on_reader_panic ::
  "nat \<Rightarrow> (BroadcasterReader \<Rightarrow> (BroadcasterReader \<times> bool) option) \<Rightarrow> Broadcaster \<Rightarrow>
     Broadcaster option" where
  "on_reader_panic i f b =
     (if i < length (bc_readers b) then
        (case f (bc_readers b ! i) of
           None \<Rightarrow> None
         | Some (r', p) \<Rightarrow>
             Some (b\<lparr>bc_readers := (bc_readers b)[i := r'], bc_panicked := (bc_panicked b \<or> p)\<rparr>))
      else None)"

text \<open>
  The steps of the system. After a panic nothing runs. \<open>NewReader\<close> is only called
  before Broadcast.
\<close>

fun bc_step :: "bc_action \<Rightarrow> Broadcaster \<Rightarrow> Broadcaster option" where
  "bc_step a b =
     (if bc_panicked b then None
      else
        (case a of
           BA_NewReader \<Rightarrow> if bc_pc b = B_NotStarted then Some (NewReader b) else None
         | BA_Broadcast \<Rightarrow> Broadcaster_Broadcast b
         | BA_Iterate \<Rightarrow> Broadcast_iterate b
         | BA_Send \<Rightarrow> Broadcast_send b
         | BA_Shutdown \<Rightarrow> Broadcast_shutdown b
         | BA_SelectAbort \<Rightarrow> Broadcast_abort b
         | BA_DeferSend \<Rightarrow> Broadcast_defer_send b
         | BA_Abort \<Rightarrow> Some (Broadcaster_Abort b)
         | BA_Read i l \<Rightarrow> on_reader i (BroadcasterReader_Read l) b
         | BA_Recv i \<Rightarrow> on_reader i BroadcasterReader_recv b
         | BA_ReadAbort i \<Rightarrow> if bc_abort b then on_reader i BroadcasterReader_abort b else None
         | BA_Close i \<Rightarrow> on_reader_panic i BroadcasterReader_Close b
         | BA_CloseSend i \<Rightarrow> on_reader_panic i BroadcasterReader_Close_send b))"

fun bc_run :: "bc_action list \<Rightarrow> Broadcaster \<Rightarrow> Broadcaster option" where
  "bc_run [] b = Some b"
| "bc_run (a # as) b = (case bc_step a b of None \<Rightarrow> None | Some b' \<Rightarrow> bc_run as b')"

text \<open>
  A Broadcaster over a source that hands out the bytes 1 to 5 in two chunks and then ends
  cleanly, reading two bytes at a time into channels with one place.
\<close>

definition bc_example :: Broadcaster where
  "bc_example =
     (NewBroadcaster \<lparr>src_chunks = [[1, 2, 3], [4, 5]], src_end = EOF\<rparr>)
       \<lparr>bc_ReadBufferSize := 2, bc_ReadChanLength := 1\<rparr>"

subsection \<open>What Broadcast has done when it returns\<close>






subsection \<open>The bytes on their way through an AsyncReader\<close>

text \<open>The bytes of the segment that the goroutine holds at its \<open>select\<close>.\<close>

definition ar_inflight :: "AsyncReader \<Rightarrow> byte list" where
  "ar_inflight ar = (case ar_producer ar of P_Select s \<Rightarrow> seg_b s | _ \<Rightarrow> [])"

text \<open>
  All bytes in order: handed to the caller, in the reassembly buffer, queued in the
  channel, held by the goroutine, not yet read from the source.
\<close>

definition ar_stream :: "AsyncReader \<Rightarrow> byte list" where
  "ar_stream ar =
     ar_delivered ar @ ar_buf ar @ concat (map seg_b (ar_c ar)) @ ar_inflight ar @ ar_r ar"

definition seg_ok :: "segment \<Rightarrow> bool" where
  "seg_ok s = (seg_err s = None \<or> seg_err s = Some EOF \<or> seg_err s = Some ErrUnexpectedEOF)"

text \<open>
  The goroutine against the source and the channel: the channel is closed exactly when
  the goroutine has returned, which it does only with the source read to its end.
\<close>

definition producer_ok :: "ar_producer \<Rightarrow> byte list \<Rightarrow> segment list \<Rightarrow> bool \<Rightarrow> bool" where
  "producer_ok p r c closed =
     (case p of
        P_NotStarted \<Rightarrow> c = [] \<and> \<not> closed
      | P_Loop \<Rightarrow> \<not> closed
      | P_Select s \<Rightarrow> seg_ok s \<and> (seg_err s \<noteq> None \<longrightarrow> r = []) \<and> \<not> closed
      | P_Returned \<Rightarrow> r = [] \<and> closed)"

definition consumer_ok :: "ar_consumer \<Rightarrow> bool" where
  "consumer_ok c = (case c of C_Idle \<Rightarrow> True | C_Select l \<Rightarrow> 0 < l)"

definition ar_inv :: "byte list \<Rightarrow> AsyncReader \<Rightarrow> bool" where
  "ar_inv xs ar =
     (ar_stream ar = xs \<and> \<not> ar_abort ar \<and> (\<forall>s \<in> set (ar_c ar). seg_ok s) \<and>
      producer_ok (ar_producer ar) (ar_r ar) (ar_c ar) (ar_c_closed ar) \<and>
      consumer_ok (ar_consumer ar) \<and>
      (\<forall>r \<in> set (ar_returned ar).
         snd r = None \<or> (snd r = Some EOF \<and> ar_delivered ar = xs)))"

text \<open>
  The schedules considered for reading a source to its end: nobody calls Close, and every
  call of Read has a destination of at least one byte.
\<close>

fun reading_action :: "ar_action \<Rightarrow> bool" where
  "reading_action A_Close = False"
| "reading_action (A_Read l) = (0 < l)"
| "reading_action _ = True"

text \<open>
  Between two calls of Read, with nothing buffered or queued: the goroutine is at the head
  of its loop and the segment size is \<open>k\<close>.
\<close>

definition ar_quiet :: "nat \<Rightarrow> AsyncReader \<Rightarrow> bool" where
  "ar_quiet k ar =
     (ar_producer ar = P_Loop \<and> ar_consumer ar = C_Idle \<and> ar_buf ar = [] \<and> ar_c ar = [] \<and>
      \<not> ar_c_closed ar \<and> ar_BufferSize ar = k)"

subsection \<open>What the sinks of a MultiWriter have received\<close>

text \<open>
  A call of \<open>Write\<close> on a sink went wrong when it returned an error or a count below the
  length of the data; a sink has failed when one of its writes went wrong or its \<open>Close\<close>
  returned an error.
\<close>

definition bad_call :: "sink_call \<Rightarrow> bool" where
  "bad_call c = (case c of (d, n, err) \<Rightarrow> err \<noteq> None \<or> n < int (length d))"

definition sink_bad :: "sink \<Rightarrow> bool" where
  "sink_bad w =
     (list_ex bad_call (snk_log w) \<or>
      (case snk_closed w of Some (Some e) \<Rightarrow> True | _ \<Rightarrow> False))"

text \<open>A call of the MultiWriter that returned without error, a Write with the full count.\<close>

definition ret_good :: "mw_ret \<Rightarrow> bool" where
  "ret_good r =
     (case r of WriteRet d n err \<Rightarrow> err = None \<and> n = length d | CloseRet err \<Rightarrow> err = None)"

definition is_CloseRet :: "mw_ret \<Rightarrow> bool" where
  "is_CloseRet r = (case r of CloseRet err \<Rightarrow> True | _ \<Rightarrow> False)"

text \<open>The data of the calls of Write that have returned.\<close>

fun payloads :: "mw_ret list \<Rightarrow> byte list list" where
  "payloads [] = []"
| "payloads (WriteRet d n err # rs) = d # payloads rs"
| "payloads (CloseRet err # rs) = payloads rs"

text \<open>
  What has been put on the channel of writer \<open>i\<close> when no Write has failed: the data of
  the calls that have returned, and that of the call in progress once it has passed \<open>i\<close>.
\<close>

definition sent_to :: "MultiWriter \<Rightarrow> nat \<Rightarrow> byte list list" where
  "sent_to mw i =
     payloads (mw_returned mw) @
     (case mw_main mw of M_Write d j \<Rightarrow> if i < j then [d] else [] | _ \<Rightarrow> [])"

definition is_sending :: "mw_worker \<Rightarrow> bool" where
  "is_sending p = (case p of W_SendWriteErr e \<Rightarrow> True | W_SendCloseErr e \<Rightarrow> True | _ \<Rightarrow> False)"

definition is_active :: "mw_worker \<Rightarrow> bool" where
  "is_active p = (p \<noteq> W_Done \<and> p \<noteq> W_NotStarted)"

text \<open>
  A writer whose sink has not failed: what the sink has been given and what is still
  queued are together what was put on the channel; its goroutine is not reporting an
  error, and has finished only with the channel closed and drained.
\<close>

definition writer_ok :: "MultiWriter \<Rightarrow> nat \<Rightarrow> bool" where
  "writer_ok mw i =
     (\<not> sink_bad (mww_w (mw_writers mw ! i)) \<longrightarrow>
        map fst (snk_log (mww_w (mw_writers mw ! i))) @ mww_wc (mw_writers mw ! i) = sent_to mw i \<and>
        \<not> is_sending (mww_worker (mw_writers mw ! i)) \<and>
        (mww_worker (mw_writers mw ! i) = W_Done \<longrightarrow>
           mww_wc (mw_writers mw ! i) = [] \<and> mww_wc_closed (mw_writers mw ! i)))"

definition mw_I1 :: "MultiWriter \<Rightarrow> bool" where
  "mw_I1 mw = (\<forall>i < length (mw_writers mw). writer_ok mw i)"

text \<open>The error of a failed sink is on its way: in \<open>mw.err\<close> or about to be sent.\<close>

definition mw_I2 :: "MultiWriter \<Rightarrow> bool" where
  "mw_I2 mw =
     ((\<exists>i < length (mw_writers mw). sink_bad (mww_w (mw_writers mw ! i))) \<longrightarrow>
        mw_err mw \<noteq> [] \<or>
        (\<exists>i < length (mw_writers mw). is_sending (mww_worker (mw_writers mw ! i))))"

text \<open>The wait group counts the goroutines that are running.\<close>

definition mw_I3 :: "MultiWriter \<Rightarrow> bool" where
  "mw_I3 mw = (mw_wg mw = length (filter (\<lambda>mww. is_active (mww_worker mww)) (mw_writers mw)))"

definition mw_I4 :: "MultiWriter \<Rightarrow> bool" where
  "mw_I4 mw =
     (if mw_inited mw then (\<forall>i < length (mw_writers mw). mww_worker (mw_writers mw ! i) \<noteq> W_NotStarted)
      else
        (\<forall>i < length (mw_writers mw).
           mww_worker (mw_writers mw ! i) = W_NotStarted \<and>
           snk_log (mww_w (mw_writers mw ! i)) = [] \<and>
           snk_closed (mww_w (mw_writers mw ! i)) = None) \<and>
        payloads (mw_returned mw) = [] \<and> mw_main mw = M_Idle)"

definition mw_I5 :: "MultiWriter \<Rightarrow> bool" where
  "mw_I5 mw =
     ((\<forall>i < length (mw_writers mw). mww_wc_closed (mw_writers mw ! i) \<longrightarrow> mw_closed mw) \<and>
      (mw_err_closed mw \<longrightarrow> mw_closed mw))"

definition mw_I6 :: "MultiWriter \<Rightarrow> bool" where
  "mw_I6 mw =
     (case mw_main mw of
        M_Write d j \<Rightarrow> \<not> mw_closed mw \<and> mw_inited mw \<and> j < length (mw_writers mw)
      | M_CloseWait \<Rightarrow> mw_inited mw \<and> mw_closed mw
      | _ \<Rightarrow> True)"

text \<open>Once Close has returned, every goroutine has finished and \<open>mw.err\<close> is empty.\<close>

definition mw_I7 :: "MultiWriter \<Rightarrow> bool" where
  "mw_I7 mw =
     (list_ex is_CloseRet (mw_returned mw) \<longrightarrow>
        mw_closed mw \<and>
        (mw_inited mw \<longrightarrow>
           (\<forall>i < length (mw_writers mw). mww_worker (mw_writers mw ! i) = W_Done) \<and>
           mw_err mw = []))"

text \<open>
  The sink of a writer has been closed only by the deferred function of its goroutine,
  after which the goroutine is reporting the error of that \<open>Close\<close> or has finished.
\<close>

definition has_closed :: "mw_worker \<Rightarrow> bool" where
  "has_closed p = (case p of W_SendCloseErr e \<Rightarrow> True | W_Done \<Rightarrow> True | _ \<Rightarrow> False)"

definition mw_I8 :: "MultiWriter \<Rightarrow> bool" where
  "mw_I8 mw =
     (\<forall>i < length (mw_writers mw).
        snk_closed (mww_w (mw_writers mw ! i)) \<noteq> None \<longrightarrow>
          has_closed (mww_worker (mw_writers mw ! i)))"

text \<open>
  What holds in every state that the MultiWriter reaches from a new one with unused
  sinks, as long as no call has returned an error and nothing has panicked.
\<close>

definition mw_inv :: "MultiWriter \<Rightarrow> bool" where
  "mw_inv mw =
     (mw_main mw = M_Panicked \<or> \<not> list_all ret_good (mw_returned mw) \<or>
      (mw_I1 mw \<and> mw_I2 mw \<and> mw_I3 mw \<and> mw_I4 mw \<and> mw_I5 mw \<and> mw_I6 mw \<and> mw_I7 mw \<and>
       mw_I8 mw))"

text \<open>A sink that has not been used.\<close>

definition fresh_sink :: "sink \<Rightarrow> bool" where
  "fresh_sink w = (snk_log w = [] \<and> snk_closed w = None)"

section \<open>Properties of ScannerWriter\<close>

lemma callbacks_ok_append:
  "callbacks_ok tf out (ts @ us) = (callbacks_ok tf out ts \<and> callbacks_ok tf (out @ ts) us)"
  by (induction ts arbitrary: out) auto

lemma advance_suffix: "advance adv data = Done d \<Longrightarrow> suffix d data"
  by (auto simp: advance_def suffix_drop split: if_splits)

lemma split_failed_here:
  "data \<noteq> [] \<Longrightarrow> sw_splitFunc sc data False = (adv, tok, Some e) \<Longrightarrow> split_failed sc data e"
  unfolding split_failed_def by blast

lemma split_failed_suffix:
  "suffix data' data \<Longrightarrow> split_failed sc data' e \<Longrightarrow> split_failed sc data e"
  unfolding split_failed_def by (meson suffix_order.trans)

lemma overflowed_here:
  "data \<noteq> [] \<Longrightarrow> sw_splitFunc sc data False = (0, None, None) \<Longrightarrow>
   int (length data) > sw_maxBufSize sc \<Longrightarrow> overflowed sc data"
  unfolding overflowed_def by blast

lemma overflowed_suffix:
  "suffix data' data \<Longrightarrow> overflowed sc data' \<Longrightarrow> overflowed sc data"
  unfolding overflowed_def by (meson suffix_order.trans)

lemma callback_failed_here:
  "sw_tokenFunc sc out t = Some e \<Longrightarrow> callback_failed sc out [t] e"
  unfolding callback_failed_def by simp

lemma callback_failed_Cons:
  "sw_tokenFunc sc out t = None \<Longrightarrow> callback_failed sc (out @ [t]) ts e \<Longrightarrow>
   callback_failed sc out (t # ts) e"
  unfolding callback_failed_def by (cases ts) auto


lemma write_post_Inl:
  assumes "data \<noteq> []" and "write_body sc dataLen data out = Inl (Done r)"
  shows "write_post sc dataLen data out r"
proof -
  obtain adv token err where sp: "sw_splitFunc sc data False = (adv, token, err)"
    by (metis prod.exhaust)
  show ?thesis
  proof (cases err)
    case (Some e)
    with sp assms(2) have "r = ((0, Some e), sc, out)" by (simp add: write_body_def)
    moreover have "split_failed sc data e" using split_failed_here[OF assms(1)] sp Some by simp
    ultimately show ?thesis by (simp add: write_post_def)
  next
    case None
    show ?thesis
    proof (cases token)
      case noTok: None
      show ?thesis
      proof (cases "adv = 0")
        case True
        show ?thesis
        proof (cases "int (length data) > sw_maxBufSize sc")
          case big: True
          with sp None noTok True assms(2) have "r = ((0, Some ErrShortBuffer), sc, out)"
            by (simp add: write_body_def)
          moreover have "overflowed sc data"
            using overflowed_here[OF assms(1)] sp None noTok True big by simp
          ultimately show ?thesis by (simp add: write_post_def)
        next
          case False
          with sp None noTok True assms(2)
          have "r = ((dataLen, None), sc\<lparr>sw_buf := Some data\<rparr>, out)"
            by (simp add: write_body_def)
          then show ?thesis by (simp add: write_post_def)
        qed
      next
        case False
        with sp None noTok assms(2) show ?thesis
          by (simp add: write_body_def split: exec.splits)
      qed
    next
      case (Some t)
      show ?thesis
      proof (cases "sw_tokenFunc sc out t")
        case ok: None
        with sp None Some assms(2) show ?thesis
          by (simp add: write_body_def split: exec.splits)
      next
        case bad: (Some e)
        with sp None Some assms(2) have "r = ((0, Some e), sc, out @ [t])"
          by (simp add: write_body_def)
        moreover have "callback_failed sc out [t] e" using callback_failed_here[OF bad] .
        ultimately show ?thesis by (simp add: write_post_def)
      qed
    qed
  qed
qed

lemma write_body_Inr:
  assumes "write_body sc dataLen data out = Inr (data', out')"
  shows "suffix data' data \<and> (out' = out \<or> (\<exists>t. out' = out @ [t] \<and> sw_tokenFunc sc out t = None))"
proof -
  obtain adv token err where sp: "sw_splitFunc sc data False = (adv, token, err)"
    by (metis prod.exhaust)
  from assms sp have err: "err = None" by (cases err) (simp_all add: write_body_def)
  show ?thesis
  proof (cases token)
    case None
    with assms sp err have "advance adv data = Done data'" "out' = out"
      by (simp_all add: write_body_def split: if_splits exec.splits)
    then show ?thesis using advance_suffix by blast
  next
    case (Some t)
    with assms sp err have "advance adv data = Done data'" "out' = out @ [t]" "sw_tokenFunc sc out t = None"
      by (simp_all add: write_body_def split: if_splits exec.splits option.splits)
    then show ?thesis using advance_suffix by blast
  qed
qed

lemma write_post_ok:
  "write_post sc dataLen data out ((n, None), sc', out') =
     (sc'\<lparr>sw_buf := None\<rparr> = sc\<lparr>sw_buf := None\<rparr> \<and> n = dataLen \<and>
      (\<exists>ts. out' = out @ ts \<and> callbacks_ok (sw_tokenFunc sc) out ts))"
  by (simp add: write_post_def) blast

lemma write_post_err:
  "write_post sc dataLen data out ((n, Some e), sc', out') =
     (sc'\<lparr>sw_buf := None\<rparr> = sc\<lparr>sw_buf := None\<rparr> \<and> n = 0 \<and> sw_buf sc' = sw_buf sc \<and>
      (\<exists>ts. out' = out @ ts \<and>
         ((callbacks_ok (sw_tokenFunc sc) out ts \<and> split_failed sc data e)
           \<or> callback_failed sc out ts e
           \<or> (callbacks_ok (sw_tokenFunc sc) out ts \<and> e = ErrShortBuffer \<and> overflowed sc data))))"
  by (simp add: write_post_def) blast

lemma write_post_skip:
  assumes "suffix data' data" and "write_post sc dataLen data' out r"
  shows "write_post sc dataLen data out r"
proof -
  obtain n err sc' out' where r: "r = ((n, err), sc', out')" by (metis prod.exhaust)
  show ?thesis
  proof (cases err)
    case None
    with assms(2) r show ?thesis by (simp add: write_post_ok)
  next
    case (Some e)
    with assms(2) r show ?thesis unfolding r Some write_post_err
      using split_failed_suffix[OF assms(1)] overflowed_suffix[OF assms(1)] by blast
  qed
qed

lemma write_post_token:
  assumes "suffix data' data" and "sw_tokenFunc sc out t = None"
    and "write_post sc dataLen data' (out @ [t]) r"
  shows "write_post sc dataLen data out r"
proof -
  obtain n err sc' out' where r: "r = ((n, err), sc', out')" by (metis prod.exhaust)
  show ?thesis
  proof (cases err)
    case None
    from assms(3)[unfolded r None write_post_ok] obtain ts where
      a: "sc'\<lparr>sw_buf := None\<rparr> = sc\<lparr>sw_buf := None\<rparr>" "n = dataLen"
      and ts: "out' = (out @ [t]) @ ts" "callbacks_ok (sw_tokenFunc sc) (out @ [t]) ts" by blast
    have "out' = out @ (t # ts)" "callbacks_ok (sw_tokenFunc sc) out (t # ts)"
      using ts assms(2) by simp_all
    then show ?thesis unfolding r None write_post_ok using a by blast
  next
    case (Some e)
    from assms(3)[unfolded r Some write_post_err] obtain ts where
      a: "sc'\<lparr>sw_buf := None\<rparr> = sc\<lparr>sw_buf := None\<rparr>" "n = 0" "sw_buf sc' = sw_buf sc"
      and ts: "out' = (out @ [t]) @ ts"
      and c: "(callbacks_ok (sw_tokenFunc sc) (out @ [t]) ts \<and> split_failed sc data' e)
           \<or> callback_failed sc (out @ [t]) ts e
           \<or> (callbacks_ok (sw_tokenFunc sc) (out @ [t]) ts \<and> e = ErrShortBuffer \<and> overflowed sc data')"
      by blast
    have o: "out' = out @ (t # ts)" using ts by simp
    have ok: "callbacks_ok (sw_tokenFunc sc) (out @ [t]) ts \<Longrightarrow> callbacks_ok (sw_tokenFunc sc) out (t # ts)"
      using assms(2) by simp
    have "(callbacks_ok (sw_tokenFunc sc) out (t # ts) \<and> split_failed sc data e)
           \<or> callback_failed sc out (t # ts) e
           \<or> (callbacks_ok (sw_tokenFunc sc) out (t # ts) \<and> e = ErrShortBuffer \<and> overflowed sc data)"
      using c ok split_failed_suffix[OF assms(1)] overflowed_suffix[OF assms(1)]
        callback_failed_Cons[OF assms(2)] by blast
    then show ?thesis unfolding r Some write_post_err using a o by blast
  qed
qed

lemma write_loop_post_aux:
  assumes "write_loop sc dataLen data out = Some y"
  shows "\<forall>r. y = Done r \<longrightarrow> write_post sc dataLen data out r"
proof (rule write_loop.raw_induct
    [where P = "\<lambda>sc dataLen data out y. \<forall>r. y = Done r \<longrightarrow> write_post sc dataLen data out r",
      OF _ assms])
  fix f sc dataLen data out y
  assume IH: "\<And>sc dataLen data out y. f sc dataLen data out = Some y \<Longrightarrow>
                \<forall>r. y = Done r \<longrightarrow> write_post sc dataLen data out r"
    and body: "(if length data > 0 then
        (case write_body sc dataLen data out of
           Inl r \<Rightarrow> Some r
         | Inr (data', out') \<Rightarrow> f sc dataLen data' out')
      else Some (Done ((dataLen, None), sc, out))) = Some y"
  show "\<forall>r. y = Done r \<longrightarrow> write_post sc dataLen data out r"
  proof (intro allI impI)
    fix r assume y: "y = Done r"
    show "write_post sc dataLen data out r"
    proof (cases "data = []")
      case True
      with body y have "r = ((dataLen, None), sc, out)" by simp
      then show ?thesis by (simp add: write_post_ok)
    next
      case False
      show ?thesis
      proof (cases "write_body sc dataLen data out")
        case (Inl a)
        with body y False have "write_body sc dataLen data out = Inl (Done r)" by simp
        from write_post_Inl[OF False this] show ?thesis .
      next
        case (Inr b)
        obtain data' out' where b: "b = (data', out')" by (cases b)
        from b Inr body False have "f sc dataLen data' out' = Some y" by simp
        then have post: "write_post sc dataLen data' out' r" using IH y by blast
        from write_body_Inr[OF Inr[unfolded b]] post show ?thesis
          using write_post_skip write_post_token by blast
      qed
    qed
  qed
qed

lemma write_loop_post:
  "write_loop sc dataLen data out = Some (Done r) \<Longrightarrow> write_post sc dataLen data out r"
  using write_loop_post_aux by blast


lemma length_takeWhile_less:
  "x \<in> set xs \<Longrightarrow> \<not> P x \<Longrightarrow> length (takeWhile P xs) < length xs"
  by (induction xs) auto

lemma progressing_ScanLinesLF: "progressing ScanLinesLF"
  unfolding progressing_def ScanLinesLF_def
  using length_takeWhile_less[of 10 _ "\<lambda>b. b \<noteq> 10"]
  by (fastforce split: if_splits)

lemma Write_loop_eq:
  assumes "\<not> sw_closed sc"
  shows "ScannerWriter_Write sc data out =
     write_loop (sc\<lparr>sw_buf := None\<rparr>) (length data) (pending sc @ data) out"
proof (cases "sw_buf sc")
  case None
  then have eq: "sc\<lparr>sw_buf := None\<rparr> = sc" by simp
  show ?thesis unfolding eq using None assms by (simp add: ScannerWriter_Write_def pending_def)
next
  case (Some b)
  with assms show ?thesis by (simp add: ScannerWriter_Write_def pending_def)
qed







lemma sw_eval_overflow_after_token:
  "ScannerWriter_Write ((NewScannerWriter ScanLinesLF 2 accept_all)\<lparr>sw_buf := Some [97, 98]\<rparr>)
       [10, 120, 121, 122] [] =
     Some (Done ((0, Some ErrShortBuffer), NewScannerWriter ScanLinesLF 2 accept_all, [[97, 98]]))"
  by (simp add: NewScannerWriter_def ScannerWriter_Write_def write_loop.simps write_body_def
      ScanLinesLF_def advance_def accept_all_def)



text \<open>
  Claim C9. When Write on an open instance returns an error, the tokens delivered so far
  (before and during the call) stay delivered, and the pending buffer is empty: what was
  buffered before the call is gone. So a Flush right after it does nothing and returns
  \<open>nil\<close>, and Close succeeds.
\<close>

theorem ScannerWriter_Write_error_leaves_empty:
  assumes "\<not> sw_closed sc"
    and "ScannerWriter_Write sc data out = Some (Done ((n, Some e), sc', out'))"
  shows "sw_buf sc' = None \<and> prefix out out' \<and>
         ScannerWriter_Flush sc' out' = (None, sc', out') \<and>
         ScannerWriter_Close sc' out' = (None, sc'\<lparr>sw_closed := True\<rparr>, out')"
proof -
  let ?sc = "sc\<lparr>sw_buf := None\<rparr>"
  from assms have "write_loop ?sc (length data) (pending sc @ data) out = Some (Done ((n, Some e), sc', out'))"
    using Write_loop_eq[OF assms(1)] by simp
  from write_loop_post[OF this, unfolded write_post_err]
  have eq: "sc'\<lparr>sw_buf := None\<rparr> = ?sc" and b: "sw_buf sc' = None" and "\<exists>ts. out' = out @ ts"
    by auto
  from eq have "sw_closed (sc'\<lparr>sw_buf := None\<rparr>) = sw_closed ?sc" by simp
  with assms(1) have c: "\<not> sw_closed sc'" by simp
  from b c have f: "ScannerWriter_Flush sc' out' = (None, sc', out')"
    by (simp add: ScannerWriter_Flush_def)
  with c have "ScannerWriter_Close sc' out' = (None, sc'\<lparr>sw_closed := True\<rparr>, out')"
    by (simp add: ScannerWriter_Close_def)
  with b f \<open>\<exists>ts. out' = out @ ts\<close> show ?thesis by (auto simp: prefix_def)
qed

theorem ScannerWriter_Write_error_leaves_empty_witness:
  "\<not> sw_closed ((NewScannerWriter ScanLinesLF 2 accept_all)\<lparr>sw_buf := Some [97, 98]\<rparr>) \<and>
   ScannerWriter_Write ((NewScannerWriter ScanLinesLF 2 accept_all)\<lparr>sw_buf := Some [97, 98]\<rparr>)
       [10, 120, 121, 122] [] =
     Some (Done ((0, Some ErrShortBuffer), NewScannerWriter ScanLinesLF 2 accept_all, [[97, 98]])) \<and>
   sw_buf (NewScannerWriter ScanLinesLF 2 accept_all) = None \<and>
   ScannerWriter_Flush (NewScannerWriter ScanLinesLF 2 accept_all) [[97, 98]] =
     (None, NewScannerWriter ScanLinesLF 2 accept_all, [[97, 98]]) \<and>
   ScannerWriter_Close (NewScannerWriter ScanLinesLF 2 accept_all) [[97, 98]] =
     (None, (NewScannerWriter ScanLinesLF 2 accept_all)\<lparr>sw_closed := True\<rparr>, [[97, 98]])"
  using ScannerWriter_Write_error_leaves_empty
    [of "(NewScannerWriter ScanLinesLF 2 accept_all)\<lparr>sw_buf := Some [97, 98]\<rparr>"
      "[10, 120, 121, 122]" "[]" 0 ErrShortBuffer "NewScannerWriter ScanLinesLF 2 accept_all"
      "[[97, 98]]"]
    sw_eval_overflow_after_token
  by (simp add: NewScannerWriter_def)

text \<open>
  Claim C3, as stated, fails: after a Flush that failed in the token callback the pending
  buffer is already cleared, and the second Close succeeds.
\<close>

theorem ScannerWriter_Close_retry_counterexample:
  "ScannerWriter_Write (NewScannerWriter ScanLinesLF 4 reject_all) [97] [] =
     Some (Done ((1, None), (NewScannerWriter ScanLinesLF 4 reject_all)\<lparr>sw_buf := Some [97]\<rparr>, []))
   \<and> ScannerWriter_Close ((NewScannerWriter ScanLinesLF 4 reject_all)\<lparr>sw_buf := Some [97]\<rparr>) [] =
     (Some (UserErr 0), NewScannerWriter ScanLinesLF 4 reject_all, [[97]])
   \<and> \<not> sw_closed (NewScannerWriter ScanLinesLF 4 reject_all)
   \<and> ScannerWriter_Close (NewScannerWriter ScanLinesLF 4 reject_all) [[97]] =
     (None, (NewScannerWriter ScanLinesLF 4 reject_all)\<lparr>sw_closed := True\<rparr>, [[97]])"
  by (simp add: NewScannerWriter_def ScannerWriter_Write_def write_loop.simps write_body_def
      ScanLinesLF_def advance_def reject_all_def ScannerWriter_Close_def ScannerWriter_Flush_def)

text \<open>
  Claim C3, amended. Close on an open instance returns what Flush returns. If that is
  \<open>nil\<close> the instance is closed, and from then on Write, Flush and Close return
  \<open>ErrClosed\<close> and change nothing. If Flush fails, Close returns its error and the
  instance stays open; then either the boundary function failed, nothing was delivered,
  the instance is unchanged and a second Close returns the same error again, or the
  callback failed on the token just delivered, the pending buffer is cleared, and a
  second Close returns \<open>nil\<close> and closes the instance.
\<close>

theorem ScannerWriter_Close_cases:
  assumes "\<not> sw_closed sc"
    and "ScannerWriter_Close sc out = (err, sc', out')"
  shows "err = fst (ScannerWriter_Flush sc out) \<and>
     (err = None \<longrightarrow>
        sw_closed sc' \<and>
        ScannerWriter_Write sc' data out'' = Some (Done ((0, Some ErrClosed), sc', out'')) \<and>
        ScannerWriter_Flush sc' out'' = (Some ErrClosed, sc', out'') \<and>
        ScannerWriter_Close sc' out'' = (Some ErrClosed, sc', out'')) \<and>
     (err \<noteq> None \<longrightarrow>
        \<not> sw_closed sc' \<and>
        ((out' = out \<and> sc' = sc \<and> ScannerWriter_Close sc' out' = (err, sc', out')) \<or>
         (\<exists>t. out' = out @ [t] \<and> sw_tokenFunc sc out t = err \<and> sw_buf sc' = None \<and>
              ScannerWriter_Close sc' out' = (None, sc'\<lparr>sw_closed := True\<rparr>, out'))))"
proof -
  obtain fe fsc fout where fl: "ScannerWriter_Flush sc out = (fe, fsc, fout)"
    by (metis prod.exhaust)
  show ?thesis
  proof (cases fe)
    case None
    with fl assms have r: "err = None" "sc' = fsc\<lparr>sw_closed := True\<rparr>" "out' = fout"
      by (simp_all add: ScannerWriter_Close_def)
    then show ?thesis using fl None
      by (simp add: ScannerWriter_Write_def ScannerWriter_Flush_def ScannerWriter_Close_def)
  next
    case (Some e)
    with fl assms have r: "err = Some e" "sc' = fsc" "out' = fout"
      by (simp_all add: ScannerWriter_Close_def)
    from fl Some assms(1) have
      "(fout = out \<and> fsc = sc) \<or>
       (\<exists>t. fout = out @ [t] \<and> sw_tokenFunc sc out t = Some e \<and> fsc = sc\<lparr>sw_buf := None\<rparr>)"
      unfolding ScannerWriter_Flush_def
      by (auto split: option.splits if_splits prod.splits)
    then show ?thesis
    proof
      assume a: "fout = out \<and> fsc = sc"
      with r fl Some assms show ?thesis by simp
    next
      assume "\<exists>t. fout = out @ [t] \<and> sw_tokenFunc sc out t = Some e \<and> fsc = sc\<lparr>sw_buf := None\<rparr>"
      then obtain t where t: "fout = out @ [t]" "sw_tokenFunc sc out t = Some e"
        "fsc = sc\<lparr>sw_buf := None\<rparr>" by blast
      have "ScannerWriter_Close fsc fout = (None, fsc\<lparr>sw_closed := True\<rparr>, fout)"
        using t(3) assms(1) by (simp add: ScannerWriter_Close_def ScannerWriter_Flush_def)
      with r t fl Some assms(1) show ?thesis by simp
    qed
  qed
qed

theorem ScannerWriter_Close_cases_witness:
  "\<not> sw_closed ((NewScannerWriter ScanLinesLF 4 reject_all)\<lparr>sw_buf := Some [97]\<rparr>) \<and>
   ScannerWriter_Close ((NewScannerWriter ScanLinesLF 4 reject_all)\<lparr>sw_buf := Some [97]\<rparr>) [] =
     (Some (UserErr 0), NewScannerWriter ScanLinesLF 4 reject_all, [[97]]) \<and>
   Some (UserErr 0) =
     fst (ScannerWriter_Flush ((NewScannerWriter ScanLinesLF 4 reject_all)\<lparr>sw_buf := Some [97]\<rparr>) []) \<and>
   ScannerWriter_Close (NewScannerWriter ScanLinesLF 4 reject_all) [[97]] =
     (None, (NewScannerWriter ScanLinesLF 4 reject_all)\<lparr>sw_closed := True\<rparr>, [[97]])"
  using ScannerWriter_Close_cases
    [of "(NewScannerWriter ScanLinesLF 4 reject_all)\<lparr>sw_buf := Some [97]\<rparr>" "[]"
      "Some (UserErr 0)" "NewScannerWriter ScanLinesLF 4 reject_all" "[[97]]" "[]" "[]"]
  by (simp add: NewScannerWriter_def ScanLinesLF_def reject_all_def ScannerWriter_Close_def
      ScannerWriter_Flush_def)

section \<open>Properties of AsyncReader\<close>

text \<open>
  Claim C10. With an empty reassembly buffer, a call of Read with a destination of length
  zero returns \<open>(0, io.EOF)\<close> at once, whatever the channel and the source still hold:
  nothing but the list of returned results changes.
\<close>

theorem AsyncReader_Read_zero_length:
  assumes "ar_buf ar = []" and "ar_consumer ar = C_Idle"
  shows "AsyncReader_Read 0 ar = Some (ar\<lparr>ar_returned := ar_returned ar @ [([], Some EOF)]\<rparr>)"
proof -
  have "ar\<lparr>ar_consumer := C_Idle\<rparr> = ar" using assms(2) by simp
  then have "ar\<lparr>ar_consumer := C_Idle, ar_returned := ar_returned ar @ [([], Some EOF)]\<rparr> =
             ar\<lparr>ar_returned := ar_returned ar @ [([], Some EOF)]\<rparr>" by simp
  then show ?thesis using assms
    by (simp add: AsyncReader_Read_def Read_loop_def Read_tail_def)
qed

theorem AsyncReader_Read_zero_length_witness:
  "ar_run [A_Start, A_Fill None, A_Send]
      ((NewAsyncReader [1, 2, 3])\<lparr>ar_BufferSize := 2, ar_ChannelSize := 1\<rparr>) = Some ar_example \<and>
   ar_buf ar_example = [] \<and> ar_consumer ar_example = C_Idle \<and>
   AsyncReader_Read 0 ar_example = Some (ar_example\<lparr>ar_returned := [([], Some EOF)]\<rparr>)"
  using AsyncReader_Read_zero_length [of ar_example]
  by (simp add: ar_example_def NewAsyncReader_def AsyncReader_Start_def producer_fill_def
      producer_send_def c_ready_def ReadFull_def)

section \<open>Properties of ScannerWriter: writing in chunks\<close>

lemma write_loop_step_token:
  assumes "d \<noteq> []" "sw_splitFunc sc d False = (adv, Some t, None)" "sw_tokenFunc sc out t = None"
    "0 < adv" "adv \<le> int (length d)"
  shows "write_loop sc n d out = write_loop sc n (drop (nat adv) d) (out @ [t])"
  using assms by (simp add: write_loop.simps[of sc n d out] write_body_def advance_def)

lemma write_loop_step_skip:
  assumes "d \<noteq> []" "sw_splitFunc sc d False = (adv, None, None)"
    "0 < adv" "adv \<le> int (length d)"
  shows "write_loop sc n d out = write_loop sc n (drop (nat adv) d) out"
  using assms by (simp add: write_loop.simps[of sc n d out] write_body_def advance_def)

lemma write_loop_step_err:
  assumes "d \<noteq> []" "sw_splitFunc sc d False = (adv, tok, Some x)"
  shows "write_loop sc n d out = Some (Done ((0, Some x), sc, out))"
  using assms by (simp add: write_loop.simps[of sc n d out] write_body_def)

lemma write_loop_step_callback_err:
  assumes "d \<noteq> []" "sw_splitFunc sc d False = (adv, Some t, None)" "sw_tokenFunc sc out t = Some x"
  shows "write_loop sc n d out = Some (Done ((0, Some x), sc, out @ [t]))"
  using assms by (simp add: write_loop.simps[of sc n d out] write_body_def)

lemma write_loop_skip_merge:
  assumes pr: "progressing (sw_splitFunc sc)" and st: "stable (sw_splitFunc sc)"
    and d: "d \<noteq> []" and sp: "sw_splitFunc sc d False = (adv, None, None)" and adv: "adv \<noteq> 0"
  shows "write_loop sc m (d @ e) out = write_loop sc m (drop (nat adv) d @ e) out"
proof -
  let ?d' = "drop (nat adv) d @ e"
  from pr[unfolded progressing_def, rule_format, of d adv None] d sp adv
  have a: "0 < adv" "adv \<le> int (length d)" by auto
  have dr: "drop (nat adv) (d @ e) = ?d'" using a by simp
  show ?thesis
  proof (cases "?d' = []")
    case True
    then have "e = []" "drop (nat adv) d = []" by auto
    then show ?thesis using write_loop_step_skip[OF d sp a, of m out] by simp
  next
    case False
    obtain adv' tok' err' where sp': "sw_splitFunc sc ?d' False = (adv', tok', err')"
      by (metis prod.exhaust)
    from st[unfolded stable_def, rule_format, of d adv None e] d sp adv False sp'
    have S: "if err' \<noteq> None then snd (snd (sw_splitFunc sc (d @ e) False)) = err'
             else if adv' = 0 \<and> tok' = None then sw_splitFunc sc (d @ e) False = (adv, None, None)
             else sw_splitFunc sc (d @ e) False = (adv + adv', tok', None)"
      by simp
    have de: "d @ e \<noteq> []" using d by simp
    show ?thesis
    proof (cases err')
      case (Some x)
      with S obtain a2 t2 where "sw_splitFunc sc (d @ e) False = (a2, t2, Some x)"
        by (metis prod.exhaust snd_conv option.distinct(1))
      then have L: "write_loop sc m (d @ e) out = Some (Done ((0, Some x), sc, out))"
        by (rule write_loop_step_err[OF de])
      have R: "write_loop sc m ?d' out = Some (Done ((0, Some x), sc, out))"
        by (rule write_loop_step_err[OF False sp'[unfolded Some]])
      show ?thesis by (simp only: L R)
    next
      case None
      show ?thesis
      proof (cases "adv' = 0 \<and> tok' = None")
        case True
        with S None have "sw_splitFunc sc (d @ e) False = (adv, None, None)" by simp
        then have "write_loop sc m (d @ e) out = write_loop sc m (drop (nat adv) (d @ e)) out"
          using a(2) by (intro write_loop_step_skip[OF de _ a(1)]) simp_all
        then show ?thesis by (simp only: dr)
      next
        case nz: False
        with S None have spde: "sw_splitFunc sc (d @ e) False = (adv + adv', tok', None)" by simp
        from pr[unfolded progressing_def, rule_format, of ?d' adv' tok'] False sp' None nz
        have a': "0 < adv'" "adv' \<le> int (length ?d')" by auto
        have "nat (adv + adv') = nat adv' + nat adv" using a(1) a'(1) by arith
        then have "drop (nat (adv + adv')) (d @ e) = drop (nat adv') (drop (nat adv) (d @ e))"
          by (simp only: drop_drop)
        then have dr2: "drop (nat (adv + adv')) (d @ e) = drop (nat adv') ?d'"
          by (simp only: dr)
        have le: "adv + adv' \<le> int (length (d @ e))" using a a' by auto
        have pos: "0 < adv + adv'" using a a' by simp
        show ?thesis
        proof (cases tok')
          case noT: None
          have L: "write_loop sc m (d @ e) out = write_loop sc m (drop (nat (adv + adv')) (d @ e)) out"
            by (rule write_loop_step_skip[OF de spde[unfolded noT] pos le])
          have R: "write_loop sc m ?d' out = write_loop sc m (drop (nat adv') ?d') out"
            by (rule write_loop_step_skip[OF False sp'[unfolded None noT] a'])
          show ?thesis by (simp only: L R dr2)
        next
          case (Some t)
          show ?thesis
          proof (cases "sw_tokenFunc sc out t")
            case ok: None
            have L: "write_loop sc m (d @ e) out =
                       write_loop sc m (drop (nat (adv + adv')) (d @ e)) (out @ [t])"
              by (rule write_loop_step_token[OF de spde[unfolded Some] ok pos le])
            have R: "write_loop sc m ?d' out = write_loop sc m (drop (nat adv') ?d') (out @ [t])"
              by (rule write_loop_step_token[OF False sp'[unfolded None Some] ok a'])
            show ?thesis by (simp only: L R dr2)
          next
            case (Some x)
            have L: "write_loop sc m (d @ e) out = Some (Done ((0, Some x), sc, out @ [t]))"
              by (rule write_loop_step_callback_err[OF de spde[unfolded \<open>tok' = Some t\<close>] Some])
            have R: "write_loop sc m ?d' out = Some (Done ((0, Some x), sc, out @ [t]))"
              by (rule write_loop_step_callback_err
                  [OF False sp'[unfolded None \<open>tok' = Some t\<close>] Some])
            show ?thesis by (simp only: L R)
          qed
        qed
      qed
    qed
  qed
qed

lemma write_loop_step_buffer:
  assumes "d \<noteq> []" "sw_splitFunc sc d False = (0, None, None)"
  shows "write_loop sc n d out =
     (if int (length d) > sw_maxBufSize sc then Some (Done ((0, Some ErrShortBuffer), sc, out))
      else Some (Done ((n, None), sc\<lparr>sw_buf := Some d\<rparr>, out)))"
  using assms by (simp add: write_loop.simps[of sc n d out] write_body_def)

lemma write_loop_append:
  assumes pr: "progressing (sw_splitFunc sc)" and st: "stable (sw_splitFunc sc)"
    and nil: "sw_buf sc = None"
  shows "write_loop sc n d out = Some (Done ((k, None), sc', out')) \<Longrightarrow>
         write_loop sc m (d @ e) out = write_loop sc m (pending sc' @ e) out' \<and>
         pending_ok sc' \<and> sc'\<lparr>sw_buf := None\<rparr> = sc"
proof (induction "length d" arbitrary: d out rule: less_induct)
  case less
  note ret = less.prems
  show ?case
  proof (cases "d = []")
    case True
    with ret have "sc' = sc" "out' = out" by (simp_all add: write_loop.simps[of sc n "[]" out])
    with True nil show ?thesis by (simp add: pending_def pending_ok_def)
  next
    case False
    obtain adv tok err where sp: "sw_splitFunc sc d False = (adv, tok, err)"
      by (metis prod.exhaust)
    have err: "err = None"
    proof (cases err)
      case (Some x)
      from write_loop_step_err[OF False sp[unfolded Some], of n out] ret show ?thesis by simp
    qed simp
    show ?thesis
    proof (cases "adv = 0 \<and> tok = None")
      case True
      with sp err have sp0: "sw_splitFunc sc d False = (0, None, None)" by simp
      from write_loop_step_buffer[OF False sp0, of n out] ret
      have r: "\<not> int (length d) > sw_maxBufSize sc" "sc' = sc\<lparr>sw_buf := Some d\<rparr>" "out' = out"
        by (simp_all split: if_splits)
      have "sc'\<lparr>sw_buf := None\<rparr> = sc" using r(2) nil by simp
      then show ?thesis using r False sp0 by (simp add: pending_def pending_ok_def)
    next
      case nz: False
      from pr[unfolded progressing_def, rule_format, of d adv tok] False sp err nz
      have a: "0 < adv" "adv \<le> int (length d)" by auto
      have shorter: "length (drop (nat adv) d) < length d" using a False by simp
      have dr: "drop (nat adv) (d @ e) = drop (nat adv) d @ e" using a by simp
      have de: "d @ e \<noteq> []" using False by simp
      show ?thesis
      proof (cases tok)
        case None
        have spN: "sw_splitFunc sc d False = (adv, None, None)" using sp err None by simp
        from write_loop_step_skip[OF False spN a, of n out] ret
        have "write_loop sc n (drop (nat adv) d) out = Some (Done ((k, None), sc', out'))" by simp
        from less.hyps[OF shorter this]
        have IH: "write_loop sc m (drop (nat adv) d @ e) out = write_loop sc m (pending sc' @ e) out'"
          and rest: "pending_ok sc'" "sc'\<lparr>sw_buf := None\<rparr> = sc" by simp_all
        have "adv \<noteq> 0" using a by simp
        from write_loop_skip_merge[OF pr st False spN this, of m e out] IH rest
        show ?thesis by simp
      next
        case (Some t)
        have spT: "sw_splitFunc sc d False = (adv, Some t, None)" using sp err Some by simp
        have ok: "sw_tokenFunc sc out t = None"
        proof (cases "sw_tokenFunc sc out t")
          case bad: (Some x)
          from write_loop_step_callback_err[OF False spT bad, of n] ret show ?thesis by simp
        qed simp
        from write_loop_step_token[OF False spT ok a, of n] ret
        have "write_loop sc n (drop (nat adv) d) (out @ [t]) = Some (Done ((k, None), sc', out'))"
          by simp
        from less.hyps[OF shorter this]
        have IH: "write_loop sc m (drop (nat adv) d @ e) (out @ [t]) =
                  write_loop sc m (pending sc' @ e) out'"
          and rest: "pending_ok sc'" "sc'\<lparr>sw_buf := None\<rparr> = sc" by simp_all
        from st[unfolded stable_def, rule_format, of d adv tok e] False sp err nz Some
        have "sw_splitFunc sc (d @ e) False = (adv, Some t, None)" by simp
        from write_loop_step_token[OF de this ok a(1), of m] a(2)
        have "write_loop sc m (d @ e) out = write_loop sc m (drop (nat adv) (d @ e)) (out @ [t])"
          by simp
        with IH rest dr show ?thesis by simp
      qed
    qed
  qed
qed

lemma write_loop_pending:
  assumes "pending_ok sc"
  shows "write_loop (sc\<lparr>sw_buf := None\<rparr>) m (pending sc) out = Some (Done ((m, None), sc, out))"
proof (cases "sw_buf sc")
  case None
  then have "sc\<lparr>sw_buf := None\<rparr> = sc" by simp
  then show ?thesis using None by (simp add: pending_def write_loop.simps[of _ _ "[]"])
next
  case (Some r)
  with assms have r: "r \<noteq> []" "sw_splitFunc sc r False = (0, None, None)"
    "int (length r) \<le> sw_maxBufSize sc" by (simp_all add: pending_ok_def)
  have eq: "sc\<lparr>sw_buf := Some r\<rparr> = sc" using Some by simp
  have "sw_splitFunc (sc\<lparr>sw_buf := None\<rparr>) r False = (0, None, None)" using r(2) by simp
  from write_loop_step_buffer[OF r(1) this, of m out] r(3) eq
  show ?thesis using Some by (simp add: pending_def)
qed

lemma Writes_concat:
  assumes "progressing (sw_splitFunc sc)" and "stable (sw_splitFunc sc)"
    and "\<not> sw_closed sc" and "pending_ok sc"
    and "ScannerWriter_Writes sc cs out = Some (Done (errs, sc1, out1))"
    and "\<forall>e \<in> set errs. e = None"
  shows "write_loop (sc\<lparr>sw_buf := None\<rparr>) m (pending sc @ concat cs) out =
           Some (Done ((m, None), sc1, out1))"
  using assms
proof (induction cs arbitrary: sc out errs)
  case Nil
  then have "sc1 = sc" "out1 = out" by simp_all
  with write_loop_pending[OF Nil.prems(4)] show ?case by simp
next
  case (Cons c cs)
  let ?sc0 = "sc\<lparr>sw_buf := None\<rparr>"
  from Cons.prems(5) obtain n err sc' out' errs' where
    w: "ScannerWriter_Write sc c out = Some (Done ((n, err), sc', out'))"
    and ws: "ScannerWriter_Writes sc' cs out' = Some (Done (errs', sc1, out1))"
    and errs: "errs = err # errs'"
    by (auto split: option.splits exec.splits prod.splits)
  from errs Cons.prems(6) have en: "err = None" and en': "\<forall>e \<in> set errs'. e = None" by simp_all
  from w en Write_loop_eq[OF Cons.prems(3)]
  have wl: "write_loop ?sc0 (length c) (pending sc @ c) out = Some (Done ((n, None), sc', out'))"
    by simp
  have pr0: "progressing (sw_splitFunc ?sc0)" and st0: "stable (sw_splitFunc ?sc0)"
    and nil0: "sw_buf ?sc0 = None"
    using Cons.prems(1,2) by simp_all
  from write_loop_append[OF pr0 st0 nil0 wl, of m "concat cs"]
  have app: "write_loop ?sc0 m ((pending sc @ c) @ concat cs) out =
             write_loop ?sc0 m (pending sc' @ concat cs) out'"
    and pok': "pending_ok sc'" and eq: "sc'\<lparr>sw_buf := None\<rparr> = ?sc0" by simp_all
  from eq have "sw_splitFunc (sc'\<lparr>sw_buf := None\<rparr>) = sw_splitFunc ?sc0"
    "sw_closed (sc'\<lparr>sw_buf := None\<rparr>) = sw_closed ?sc0" by simp_all
  then have same: "sw_splitFunc sc' = sw_splitFunc sc" "sw_closed sc' = sw_closed sc" by simp_all
  have "write_loop (sc'\<lparr>sw_buf := None\<rparr>) m (pending sc' @ concat cs) out' =
          Some (Done ((m, None), sc1, out1))"
    using Cons.IH[OF _ _ _ pok' ws en'] Cons.prems(1,2,3) same by simp
  with app eq show ?case by simp
qed

lemma stable_ScanLinesLF: "stable ScanLinesLF"
  unfolding stable_def
proof (intro allI impI)
  fix d e :: "byte list" and adv tok
  assume a: "d \<noteq> [] \<and> ScanLinesLF d False = (adv, tok, None) \<and> \<not> (adv = 0 \<and> tok = None)"
  then have in_d: "10 \<in> set d" by (auto simp: ScanLinesLF_def split: if_splits)
  then have tw: "takeWhile (\<lambda>b. b \<noteq> 10) (d @ e) = takeWhile (\<lambda>b. b \<noteq> 10) d"
    by (simp add: takeWhile_append1[of 10])
  from a in_d obtain t where t: "tok = Some t" by (auto simp: ScanLinesLF_def)
  from a in_d tw have "ScanLinesLF (d @ e) False = ScanLinesLF d False"
    by (simp add: ScanLinesLF_def)
  with a t show "case tok of
           Some t \<Rightarrow> ScanLinesLF (d @ e) False = (adv, Some t, None)
         | None \<Rightarrow>
             drop (nat adv) d @ e \<noteq> [] \<longrightarrow>
               (case ScanLinesLF (drop (nat adv) d @ e) False of (adv', tok', err') \<Rightarrow>
                  if err' \<noteq> None then snd (snd (ScanLinesLF (d @ e) False)) = err'
                  else if adv' = 0 \<and> tok' = None then ScanLinesLF (d @ e) False = (adv, None, None)
                  else ScanLinesLF (d @ e) False = (adv + adv', tok', None))"
    by simp
qed

lemma scan_input_Nil: "scan_input split atEOF [] = []"
  by (simp add: scan_input.simps)

lemma scan_input_more:
  "d \<noteq> [] \<Longrightarrow> split d False = (0, None, None) \<Longrightarrow>
   scan_input split False d = scan_input split True d"
  by (subst scan_input.simps) simp

lemma scan_input_token:
  "d \<noteq> [] \<Longrightarrow> split d False = (adv, Some t, None) \<Longrightarrow> 0 < adv \<Longrightarrow> adv \<le> int (length d) \<Longrightarrow>
   scan_input split False d = t # scan_input split False (drop (nat adv) d)"
  by (subst scan_input.simps) simp

lemma scan_input_skip:
  "d \<noteq> [] \<Longrightarrow> split d False = (adv, None, None) \<Longrightarrow> 0 < adv \<Longrightarrow> adv \<le> int (length d) \<Longrightarrow>
   scan_input split False d = scan_input split False (drop (nat adv) d)"
  by (subst scan_input.simps) simp

lemma scan_input_EOF:
  assumes "d \<noteq> []" and "split d True = (adv, tok, None)"
    and "adv \<le> 0 \<or> int (length d) \<le> adv"
  shows "scan_input split True d = (case tok of None \<Rightarrow> [] | Some t \<Rightarrow> [t])"
proof (cases "0 < adv \<and> adv \<le> int (length d)")
  case True
  with assms(3) have "nat adv = length d" by simp
  then have "drop (nat adv) d = []" by simp
  with assms(1,2) True show ?thesis
    by (subst scan_input.simps) (simp add: scan_input_Nil)
next
  case False
  with assms(1,2) show ?thesis
    by (subst scan_input.simps) (auto split: option.splits)
qed

lemma Flush_tokens:
  assumes fin: "takes_all_at_EOF (sw_splitFunc sc)" and op: "\<not> sw_closed sc"
    and pok: "pending_ok sc"
  shows "snd (snd (ScannerWriter_Flush sc out)) =
           out @ scan_input (sw_splitFunc sc) False (pending sc)"
proof (cases "sw_buf sc")
  case None
  with op show ?thesis by (simp add: ScannerWriter_Flush_def pending_def scan_input_Nil)
next
  case (Some r)
  with pok have r: "r \<noteq> []" "sw_splitFunc sc r False = (0, None, None)"
    by (simp_all add: pending_ok_def)
  have p: "pending sc = r" using Some by (simp add: pending_def)
  obtain adv tok err where sp: "sw_splitFunc sc r True = (adv, tok, err)"
    by (metis prod.exhaust)
  have more: "scan_input (sw_splitFunc sc) False r = scan_input (sw_splitFunc sc) True r"
    using scan_input_more[where split = "sw_splitFunc sc", OF r] .
  show ?thesis
  proof (cases err)
    case (Some e)
    have "scan_input (sw_splitFunc sc) True r = []"
      using r(1) sp Some by (subst scan_input.simps) simp
    moreover have "snd (snd (ScannerWriter_Flush sc out)) = out"
      using op \<open>sw_buf sc = Some r\<close> r(1) sp Some by (simp add: ScannerWriter_Flush_def)
    ultimately show ?thesis using p more by simp
  next
    case None
    from fin[unfolded takes_all_at_EOF_def, rule_format, of r adv tok] r sp None
    have t: "tok \<noteq> Some []" and a: "adv \<le> 0 \<or> int (length r) \<le> adv" by simp_all
    from scan_input_EOF[where split = "sw_splitFunc sc", OF r(1) sp[unfolded None] a]
    have sc: "scan_input (sw_splitFunc sc) True r = (case tok of None \<Rightarrow> [] | Some t \<Rightarrow> [t])" .
    have "snd (snd (ScannerWriter_Flush sc out)) = out @ (case tok of None \<Rightarrow> [] | Some t \<Rightarrow> [t])"
      using op \<open>sw_buf sc = Some r\<close> r(1) sp None t
      by (auto simp: ScannerWriter_Flush_def split: option.splits)
    with sc p more show ?thesis by simp
  qed
qed

lemma write_loop_tokens:
  assumes pr: "progressing (sw_splitFunc sc)" and nil: "sw_buf sc = None"
  shows "write_loop sc n d out = Some (Done ((k, None), sc', out')) \<Longrightarrow>
         out' @ scan_input (sw_splitFunc sc) False (pending sc') =
           out @ scan_input (sw_splitFunc sc) False d"
proof (induction "length d" arbitrary: d out rule: less_induct)
  case less
  note ret = less.prems
  show ?case
  proof (cases "d = []")
    case True
    with ret have "sc' = sc" "out' = out" by (simp_all add: write_loop.simps[of sc n "[]" out])
    with True nil show ?thesis by (simp add: pending_def)
  next
    case False
    obtain adv tok err where sp: "sw_splitFunc sc d False = (adv, tok, err)"
      by (metis prod.exhaust)
    have err: "err = None"
    proof (cases err)
      case (Some x)
      from write_loop_step_err[OF False sp[unfolded Some], of n out] ret show ?thesis by simp
    qed simp
    show ?thesis
    proof (cases "adv = 0 \<and> tok = None")
      case True
      with sp err have sp0: "sw_splitFunc sc d False = (0, None, None)" by simp
      from write_loop_step_buffer[OF False sp0, of n out] ret
      have r: "sc' = sc\<lparr>sw_buf := Some d\<rparr>" "out' = out"
        by (simp_all split: if_splits)
      then show ?thesis by (simp add: pending_def)
    next
      case nz: False
      from pr[unfolded progressing_def, rule_format, of d adv tok] False sp err nz
      have a: "0 < adv" "adv \<le> int (length d)" by auto
      have shorter: "length (drop (nat adv) d) < length d" using a False by simp
      show ?thesis
      proof (cases tok)
        case None
        have spN: "sw_splitFunc sc d False = (adv, None, None)" using sp err None by simp
        from write_loop_step_skip[OF False spN a, of n out] ret
        have "write_loop sc n (drop (nat adv) d) out = Some (Done ((k, None), sc', out'))" by simp
        from less.hyps[OF shorter this] scan_input_skip[where split = "sw_splitFunc sc", OF False spN a]
        show ?thesis by simp
      next
        case (Some t)
        have spT: "sw_splitFunc sc d False = (adv, Some t, None)" using sp err Some by simp
        have ok: "sw_tokenFunc sc out t = None"
        proof (cases "sw_tokenFunc sc out t")
          case bad: (Some x)
          from write_loop_step_callback_err[OF False spT bad, of n] ret show ?thesis by simp
        qed simp
        from write_loop_step_token[OF False spT ok a, of n] ret
        have "write_loop sc n (drop (nat adv) d) (out @ [t]) = Some (Done ((k, None), sc', out'))"
          by simp
        from less.hyps[OF shorter this] scan_input_token[where split = "sw_splitFunc sc", OF False spT a]
        show ?thesis by simp
      qed
    qed
  qed
qed

lemma takes_all_ScanLinesLF: "takes_all_at_EOF ScanLinesLF"
  unfolding takes_all_at_EOF_def ScanLinesLF_def by (auto split: if_splits)

text \<open>
  Claim C1, as stated, fails on five counts. A boundary function may answer differently
  on a chunk and on the whole input (\<open>ScanAll\<close>). A chunk may overflow the buffer, so that
  its bytes are dropped (\<open>ScanLinesLF\<close> with a maximum buffer size of 1). Flush calls the
  boundary function once and drops what that call leaves over, where the function applied
  to the whole input goes on (\<open>ScanTriples\<close>). Flush does not deliver an empty token,
  which the function applied to the whole input returns (\<open>ScanLines\<close> on an input that
  ends with a lone byte 13). And with a boundary function that does not make progress
  Write delivers no sequence of tokens at all: it panics (\<open>ScanTooFar\<close>).
\<close>

theorem ScannerWriter_chunking_counterexample:
  "tokens_of_chunks (NewScannerWriter ScanAll 4 accept_all) [[97], [98]] = Some (Done [[97], [98]]) \<and>
   tokens_of_input ScanAll (concat [[97], [98]]) = [[97, 98]] \<and>
   tokens_of_chunks (NewScannerWriter ScanLinesLF 1 accept_all) [[97, 98], [10]] = Some (Done [[]]) \<and>
   tokens_of_input ScanLinesLF (concat [[97, 98], [10]]) = [[97, 98]] \<and>
   tokens_of_chunks (NewScannerWriter ScanTriples 4 accept_all) [[1, 2, 3, 4, 5]] =
     Some (Done [[1, 2, 3], [4]]) \<and>
   tokens_of_input ScanTriples (concat [[1, 2, 3, 4, 5]]) = [[1, 2, 3], [4], [5]] \<and>
   tokens_of_chunks (NewScannerWriter ScanLines 4 accept_all) [[97, 10, 13]] = Some (Done [[97]]) \<and>
   tokens_of_input ScanLines (concat [[97, 10, 13]]) = [[97], []] \<and>
   tokens_of_chunks (NewScannerWriter ScanTooFar 4 accept_all) [[97]] = Some Panic \<and>
   tokens_of_input ScanTooFar (concat [[97]]) = []"
  by (simp add: tokens_of_chunks_def NewScannerWriter_def ScannerWriter_Write_def write_loop.simps
      write_body_def ScanAll_def ScanLinesLF_def ScanTriples_def ScanLines_def dropCR_def
      ScanTooFar_def advance_def accept_all_def ScannerWriter_Flush_def tokens_of_input_def
      scan_input.simps)

text \<open>
  Claim C1, amended. For a boundary function that makes progress, is stable under
  extension and takes all that is left at the end of the input, an open instance with
  nothing pending, and every way of cutting the input into chunks: if every Write of the
  chunks returns without error, then the tokens delivered to the callback by the Writes
  and the Flush are the tokens obtained by applying the boundary function to the whole
  input at once; and one Write of the whole input returns without error, with the same
  instance and the same tokens delivered as the Writes of the chunks.
\<close>

theorem ScannerWriter_chunk_independence:
  assumes "progressing (sw_splitFunc sc)" and "stable (sw_splitFunc sc)"
    and "takes_all_at_EOF (sw_splitFunc sc)"
    and "\<not> sw_closed sc" and "sw_buf sc = None"
    and "ScannerWriter_Writes sc cs [] = Some (Done (errs, sc1, out1))"
    and "\<forall>e \<in> set errs. e = None"
  shows "tokens_of_chunks sc cs = Some (Done (tokens_of_input (sw_splitFunc sc) (concat cs))) \<and>
         ScannerWriter_Write sc (concat cs) [] =
           Some (Done ((length (concat cs), None), sc1, out1))"
proof -
  have pok: "pending_ok sc" and p: "pending sc = []"
    using assms(5) by (simp_all add: pending_ok_def pending_def)
  have e: "sc\<lparr>sw_buf := None\<rparr> = sc" using assms(5) by simp
  from Writes_concat[OF assms(1,2,4) pok assms(6,7), of "length (concat cs)"] p e
  have wl: "write_loop sc (length (concat cs)) (concat cs) [] =
              Some (Done ((length (concat cs), None), sc1, out1))" by simp
  then have w: "ScannerWriter_Write sc (concat cs) [] =
           Some (Done ((length (concat cs), None), sc1, out1))"
    using Write_loop_eq[OF assms(4), of "concat cs" "[]"] p e by simp
  from write_loop_append[OF assms(1,2,5) wl, of 0 "[]"]
  have pok1: "pending_ok sc1" and eq: "sc1\<lparr>sw_buf := None\<rparr> = sc" by simp_all
  from eq have "sw_splitFunc (sc1\<lparr>sw_buf := None\<rparr>) = sw_splitFunc sc"
    "sw_closed (sc1\<lparr>sw_buf := None\<rparr>) = sw_closed sc" by simp_all
  then have same: "sw_splitFunc sc1 = sw_splitFunc sc" "sw_closed sc1 = sw_closed sc" by simp_all
  from write_loop_tokens[OF assms(1,5) wl]
  have t: "out1 @ scan_input (sw_splitFunc sc) False (pending sc1) =
           scan_input (sw_splitFunc sc) False (concat cs)" by simp
  from Flush_tokens[of sc1 out1] assms(3,4) pok1 same
  have "snd (snd (ScannerWriter_Flush sc1 out1)) =
          out1 @ scan_input (sw_splitFunc sc) False (pending sc1)" by simp
  with t have "snd (snd (ScannerWriter_Flush sc1 out1)) = tokens_of_input (sw_splitFunc sc) (concat cs)"
    by (simp add: tokens_of_input_def)
  then have "tokens_of_chunks sc cs = Some (Done (tokens_of_input (sw_splitFunc sc) (concat cs)))"
    using assms(6) by (cases "ScannerWriter_Flush sc1 out1") (simp add: tokens_of_chunks_def)
  with w show ?thesis by simp
qed

lemma sw_eval_chunks:
  "ScannerWriter_Writes (NewScannerWriter ScanLinesLF 4 accept_all) [[97, 10, 98], [99]] [] =
     Some (Done ([None, None], (NewScannerWriter ScanLinesLF 4 accept_all)\<lparr>sw_buf := Some [98, 99]\<rparr>,
        [[97]]))"
  by (simp add: NewScannerWriter_def ScannerWriter_Write_def write_loop.simps write_body_def
      ScanLinesLF_def advance_def accept_all_def)

theorem ScannerWriter_chunk_independence_witness:
  "progressing (sw_splitFunc (NewScannerWriter ScanLinesLF 4 accept_all)) \<and>
   stable (sw_splitFunc (NewScannerWriter ScanLinesLF 4 accept_all)) \<and>
   takes_all_at_EOF (sw_splitFunc (NewScannerWriter ScanLinesLF 4 accept_all)) \<and>
   \<not> sw_closed (NewScannerWriter ScanLinesLF 4 accept_all) \<and>
   sw_buf (NewScannerWriter ScanLinesLF 4 accept_all) = None \<and>
   ScannerWriter_Writes (NewScannerWriter ScanLinesLF 4 accept_all) [[97, 10, 98], [99]] [] =
     Some (Done ([None, None], (NewScannerWriter ScanLinesLF 4 accept_all)\<lparr>sw_buf := Some [98, 99]\<rparr>,
        [[97]])) \<and>
   list_all (\<lambda>e. e = None) [None, None :: error option] \<and>
   tokens_of_chunks (NewScannerWriter ScanLinesLF 4 accept_all) [[97, 10, 98], [99]] =
     Some (Done [[97], [98, 99]]) \<and>
   tokens_of_input ScanLinesLF [97, 10, 98, 99] = [[97], [98, 99]] \<and>
   ScannerWriter_Write (NewScannerWriter ScanLinesLF 4 accept_all) [97, 10, 98, 99] [] =
     Some (Done ((4, None), (NewScannerWriter ScanLinesLF 4 accept_all)\<lparr>sw_buf := Some [98, 99]\<rparr>,
        [[97]]))"
proof -
  have s: "sw_splitFunc (NewScannerWriter ScanLinesLF 4 accept_all) = ScanLinesLF"
    and c: "\<not> sw_closed (NewScannerWriter ScanLinesLF 4 accept_all)"
    and b: "sw_buf (NewScannerWriter ScanLinesLF 4 accept_all) = None"
    by (simp_all add: NewScannerWriter_def)
  have pr: "progressing (sw_splitFunc (NewScannerWriter ScanLinesLF 4 accept_all))"
    and st: "stable (sw_splitFunc (NewScannerWriter ScanLinesLF 4 accept_all))"
    and fin: "takes_all_at_EOF (sw_splitFunc (NewScannerWriter ScanLinesLF 4 accept_all))"
    using progressing_ScanLinesLF stable_ScanLinesLF takes_all_ScanLinesLF s by simp_all
  have t: "tokens_of_input ScanLinesLF [97, 10, 98, 99] = [[97], [98, 99]]"
    by (simp add: tokens_of_input_def scan_input.simps ScanLinesLF_def)
  from ScannerWriter_chunk_independence[OF pr st fin c b sw_eval_chunks] pr st fin c b
    sw_eval_chunks t s
  show ?thesis by simp
qed

section \<open>Properties of MultiWriter\<close>

text \<open>
  Claim C5 against the code. A MultiWriter over one sink is written to once and closed;
  the second Close does not return \<open>ErrClosed\<close>: it closes the channel of the writer
  again, which panics. On an instance that was never written to, each Close returns
  \<open>nil\<close>.
\<close>

theorem MultiWriter_Close_twice:
  "map_option mw_main
     (mw_run [MA_Write [1], MA_Send, MA_Worker 0, MA_Close, MA_Worker 0, MA_CloseFinish, MA_Close]
        (NewMultiWriter [ok_sink])) = Some M_Panicked \<and>
   map_option mw_returned
     (mw_run [MA_Write [1], MA_Send, MA_Worker 0, MA_Close, MA_Worker 0, MA_CloseFinish, MA_Close]
        (NewMultiWriter [ok_sink])) = Some [WriteRet [1] 1 None, CloseRet None] \<and>
   map_option mw_returned (mw_run [MA_Close, MA_Close] (NewMultiWriter [ok_sink])) =
     Some [CloseRet None, CloseRet None]"
  by (simp add: NewMultiWriter_def MultiWriter_Write_def MultiWriter_init_def Write_next_def
      Write_send_def wc_ready_def worker_step_def worker_deferred_def MultiWriter_Close_def
      Close_finish_def ok_sink_def ok_write_def Let_def)

section \<open>Properties of Broadcaster\<close>

text \<open>
  Claim C8 against the code. A reader has taken one byte of a segment of two, so one byte
  is left in its reassembly buffer; Abort is called; the next Read does not return
  \<open>ErrAborted\<close> but hands out the buffered byte with a \<open>nil\<close> error, because Read looks at
  \<open>abort\<close> only inside the loop that it enters when the buffer holds too little. And a
  Broadcast called after Abort with no reader registered reads the source to its end and
  returns \<open>nil\<close>, because Broadcast looks at \<open>abort\<close> only when it sends to a reader.
\<close>

theorem Abort_still_delivers:
  "map_option (br_returned \<circ> hd \<circ> bc_readers)
     (bc_run [BA_NewReader, BA_Broadcast, BA_Iterate, BA_Send, BA_Read 0 1, BA_Recv 0, BA_Abort,
              BA_Read 0 1] bc_example) = Some [([1], None), ([2], None)] \<and>
   map_option bc_pc
     (bc_run [BA_Abort, BA_Broadcast, BA_Iterate, BA_Iterate, BA_Iterate] bc_example) =
     Some (B_Returned None)"
  by (simp add: bc_example_def NewBroadcaster_def NewReader_def Broadcaster_Broadcast_def
      Broadcast_iterate_def distribute_def after_distribute_def deferred_def Broadcast_send_def
      data_ready_def on_reader_def BroadcasterReader_Read_def BroadcasterReader_loop_def
      BroadcasterReader_tail_def BroadcasterReader_recv_def Broadcaster_Abort_def)

section \<open>Properties of Broadcaster: what Broadcast returns\<close>









































section \<open>Properties of AsyncReader: reading a source to its end\<close>

lemma ReadFull_parts:
  assumes "ReadFull src k = ((b, err), rest)"
  shows "b @ rest = src \<and> seg_ok \<lparr>seg_b = b, seg_err = err\<rparr> \<and> (err \<noteq> None \<longrightarrow> rest = [])"
  using assms by (auto simp: ReadFull_def seg_ok_def split: if_splits)

lemma ar_inv_Start:
  assumes "ar_inv xs ar" and "AsyncReader_Start ar = Some ar'"
  shows "ar_inv xs ar'"
proof -
  from assms(2) have ns: "ar_producer ar = P_NotStarted"
    and ar': "ar' = ar\<lparr>ar_c := [], ar_c_closed := False, ar_bufs := [], ar_producer := P_Loop\<rparr>"
    by (simp_all add: AsyncReader_Start_def split: if_splits)
  from assms(1) ns have c: "ar_c ar = []" by (simp add: ar_inv_def producer_ok_def)
  have st: "ar_stream ar' = ar_stream ar"
    using ns c by (simp add: ar' ar_stream_def ar_inflight_def ar_delivered_def)
  have dl: "ar_delivered ar' = ar_delivered ar" by (simp add: ar' ar_delivered_def)
  from assms(1) st dl ns show ?thesis by (simp add: ar_inv_def ar' producer_ok_def)
qed

lemma producer_fill_fields:
  assumes "producer_fill which ar = Some ar'"
  shows "ar_producer ar = P_Loop \<and>
    (\<exists>k b err. ReadFull (ar_r ar) k = ((b, err), ar_r ar') \<and>
        ar_producer ar' = P_Select \<lparr>seg_b = b, seg_err = err\<rparr>) \<and>
    ar_c ar' = ar_c ar \<and> ar_c_closed ar' = ar_c_closed ar \<and> ar_abort ar' = ar_abort ar \<and>
    ar_buf ar' = ar_buf ar \<and> ar_consumer ar' = ar_consumer ar \<and>
    ar_returned ar' = ar_returned ar \<and> ar_ChannelSize ar' = ar_ChannelSize ar"
proof (cases which)
  case None
  with assms show ?thesis
    by (auto simp: producer_fill_def split: if_splits prod.splits)
next
  case (Some i)
  with assms show ?thesis
    by (auto simp: producer_fill_def split: if_splits prod.splits)
qed

lemma ar_inv_fill:
  assumes "ar_inv xs ar" and "producer_fill which ar = Some ar'"
  shows "ar_inv xs ar'"
proof -
  from producer_fill_fields[OF assms(2)] obtain k b err where
    pl: "ar_producer ar = P_Loop"
    and rf: "ReadFull (ar_r ar) k = ((b, err), ar_r ar')"
    and ps: "ar_producer ar' = P_Select \<lparr>seg_b = b, seg_err = err\<rparr>"
    and same: "ar_c ar' = ar_c ar" "ar_c_closed ar' = ar_c_closed ar" "ar_abort ar' = ar_abort ar"
      "ar_buf ar' = ar_buf ar" "ar_consumer ar' = ar_consumer ar" "ar_returned ar' = ar_returned ar"
    by blast
  from ReadFull_parts[OF rf] have p: "b @ ar_r ar' = ar_r ar" "seg_ok \<lparr>seg_b = b, seg_err = err\<rparr>"
    "err \<noteq> None \<longrightarrow> ar_r ar' = []" by simp_all
  have dl: "ar_delivered ar' = ar_delivered ar" using same by (simp add: ar_delivered_def)
  have "ar_stream ar' = ar_stream ar"
    using p(1) pl ps same dl by (simp add: ar_stream_def ar_inflight_def)
  then show ?thesis using assms(1) pl ps p(2,3) same dl by (simp add: ar_inv_def producer_ok_def)
qed

lemma ar_inv_send:
  assumes "ar_inv xs ar" and "producer_send ar = Some ar'"
  shows "ar_inv xs ar'"
proof -
  from assms(2) obtain s where ps: "ar_producer ar = P_Select s"
    by (auto simp: producer_send_def split: ar_producer.splits)
  from assms(1) ps have s: "seg_ok s" "seg_err s \<noteq> None \<longrightarrow> ar_r ar = []" "\<not> ar_c_closed ar"
    by (simp_all add: ar_inv_def producer_ok_def)
  from assms(2) ps have ar': "ar' = (if seg_err s \<noteq> None
             then ar\<lparr>ar_c := ar_c ar @ [s], ar_c_closed := True, ar_producer := P_Returned\<rparr>
             else ar\<lparr>ar_c := ar_c ar @ [s], ar_producer := P_Loop\<rparr>)"
    by (auto simp: producer_send_def split: if_splits)
  have st: "ar_stream ar' = ar_stream ar"
    using ps by (simp add: ar' ar_stream_def ar_inflight_def ar_delivered_def)
  have dl: "ar_delivered ar' = ar_delivered ar" by (simp add: ar' ar_delivered_def)
  show ?thesis
  proof (cases "seg_err s \<noteq> None")
    case True
    with assms(1) s st dl show ?thesis by (simp add: ar_inv_def ar' producer_ok_def)
  next
    case False
    with assms(1) s st dl show ?thesis by (simp add: ar_inv_def ar' producer_ok_def)
  qed
qed

lemma delivered_all:
  assumes "ar_stream ar = xs" and "ar_delivered ar = xs"
  shows "ar_buf ar = []"
  using assms by (simp add: ar_stream_def)

lemma Read_tail_inv:
  assumes core: "ar_inv xs (ar\<lparr>ar_consumer := C_Idle\<rparr>)"
    and drained: "ar_buf ar = [] \<longrightarrow> ar_c ar = [] \<and> ar_c_closed ar"
  shows "ar_inv xs (Read_tail l ar)"
proof -
  from core have st: "ar_stream ar = xs"
    by (simp add: ar_inv_def ar_stream_def ar_inflight_def ar_delivered_def)
  from core have old: "\<forall>r \<in> set (ar_returned ar). snd r = None \<or> (snd r = Some EOF \<and> ar_delivered ar = xs)"
    by (simp add: ar_inv_def ar_delivered_def)
  have keep: "\<forall>r \<in> set (ar_returned ar). snd r = None \<or> (snd r = Some EOF \<and> ar_buf ar = [])"
  proof
    fix r assume "r \<in> set (ar_returned ar)"
    with old have "snd r = None \<or> (snd r = Some EOF \<and> ar_delivered ar = xs)" by blast
    then show "snd r = None \<or> (snd r = Some EOF \<and> ar_buf ar = [])"
      using delivered_all[OF st] by blast
  qed
  show ?thesis
  proof (cases "length (ar_buf ar) > l")
    case True
    let ?ar = "ar\<lparr>ar_buf := drop l (ar_buf ar), ar_consumer := C_Idle,
           ar_returned := ar_returned ar @ [(take l (ar_buf ar), None)]\<rparr>"
    have eq: "Read_tail l ar = ?ar" using True by (simp add: Read_tail_def)
    have ne: "ar_buf ar \<noteq> []" using True by auto
    with keep have noeof: "\<forall>r \<in> set (ar_returned ar). snd r = None" by blast
    have "ar_stream ?ar = ar_stream ar"
      by (simp add: ar_stream_def ar_inflight_def ar_delivered_def)
    with st core noeof show ?thesis unfolding eq by (simp add: ar_inv_def consumer_ok_def)
  next
    case False
    show ?thesis
    proof (cases "length (ar_buf ar) > 0")
      case True
      let ?ar = "ar\<lparr>ar_buf := [], ar_consumer := C_Idle,
           ar_returned := ar_returned ar @ [(ar_buf ar, None)]\<rparr>"
      have eq: "Read_tail l ar = ?ar" using True False by (simp add: Read_tail_def)
      have ne: "ar_buf ar \<noteq> []" using True by auto
      with keep have noeof: "\<forall>r \<in> set (ar_returned ar). snd r = None" by blast
      have "ar_stream ?ar = ar_stream ar"
        by (simp add: ar_stream_def ar_inflight_def ar_delivered_def)
      with st core noeof show ?thesis unfolding eq by (simp add: ar_inv_def consumer_ok_def)
    next
      case empty: False
      let ?ar = "ar\<lparr>ar_consumer := C_Idle, ar_returned := ar_returned ar @ [([], Some EOF)]\<rparr>"
      have eq: "Read_tail l ar = ?ar" using empty False by (simp add: Read_tail_def)
      from empty drained have d: "ar_buf ar = []" "ar_c ar = []" "ar_c_closed ar" by simp_all
      from core d(3) have p: "ar_producer ar = P_Returned" "ar_r ar = []"
        by (auto simp: ar_inv_def producer_ok_def split: ar_producer.splits)
      from st d p have all: "ar_delivered ar = xs" by (simp add: ar_stream_def ar_inflight_def)
      have st': "ar_stream ?ar = ar_stream ar"
        by (simp add: ar_stream_def ar_inflight_def ar_delivered_def)
      have dl': "ar_delivered ?ar = ar_delivered ar" by (simp add: ar_delivered_def)
      from core st st' dl' all old show ?thesis unfolding eq
        by (simp add: ar_inv_def consumer_ok_def)
    qed
  qed
qed

lemma ar_inv_consumer:
  "ar_inv xs (ar\<lparr>ar_consumer := c\<rparr>) =
     (ar_inv xs (ar\<lparr>ar_consumer := C_Idle\<rparr>) \<and> consumer_ok c)"
  by (auto simp: ar_inv_def ar_stream_def ar_inflight_def ar_delivered_def consumer_ok_def)

lemma ar_inv_core: "ar_inv xs ar \<Longrightarrow> ar_inv xs (ar\<lparr>ar_consumer := C_Idle\<rparr>)"
  by (auto simp: ar_inv_def ar_stream_def ar_inflight_def ar_delivered_def consumer_ok_def)

lemma Read_loop_inv:
  assumes core: "ar_inv xs (ar\<lparr>ar_consumer := C_Idle\<rparr>)" and l: "0 < l"
  shows "ar_inv xs (Read_loop l ar)"
proof (cases "length (ar_buf ar) < l")
  case True
  from core l have "ar_inv xs (ar\<lparr>ar_consumer := C_Select l\<rparr>)"
    by (simp add: ar_inv_consumer[where c = "C_Select l"] consumer_ok_def)
  with True show ?thesis by (simp add: Read_loop_def)
next
  case False
  with l have "ar_buf ar \<noteq> []" by auto
  with Read_tail_inv[OF core, of l] False show ?thesis by (simp add: Read_loop_def)
qed

lemma ar_inv_Read:
  assumes "ar_inv xs ar" and "AsyncReader_Read l ar = Some ar'" and "0 < l"
  shows "ar_inv xs ar'"
proof -
  from assms(2) have idle: "ar_consumer ar = C_Idle" and ar': "ar' = Read_loop l ar"
    by (simp_all add: AsyncReader_Read_def split: if_splits)
  from idle have "ar\<lparr>ar_consumer := C_Idle\<rparr> = ar" by simp
  with assms(1) have "ar_inv xs (ar\<lparr>ar_consumer := C_Idle\<rparr>)" by simp
  from Read_loop_inv[OF this assms(3)] ar' show ?thesis by simp
qed

lemma ar_inv_recv:
  assumes "ar_inv xs ar" and "Read_recv ar = Some ar'"
  shows "ar_inv xs ar'"
proof -
  from assms(2) obtain l where sel: "ar_consumer ar = C_Select l"
    by (auto simp: Read_recv_def split: ar_consumer.splits)
  from assms(1) sel have l: "0 < l" by (simp add: ar_inv_def consumer_ok_def)
  have core: "ar_inv xs (ar\<lparr>ar_consumer := C_Idle\<rparr>)"
    using assms(1) by (rule ar_inv_core)
  show ?thesis
  proof (cases "ar_c ar")
    case Nil
    with assms(2) sel have cl: "ar_c_closed ar" and ar': "ar' = Read_tail l ar"
      by (simp_all add: Read_recv_def split: if_splits)
    from Read_tail_inv[OF core, of l] Nil cl ar' show ?thesis by simp
  next
    case (Cons s rest)
    from assms(1) Cons have ok: "seg_ok s" by (simp add: ar_inv_def)
    let ?ar = "ar\<lparr>ar_c := rest, ar_buf := ar_buf ar @ seg_b s,
                   ar_bufs := ar_bufs ar @ [length (seg_b s)]\<rparr>"
    from assms(2) sel Cons ok have ar': "ar' = Read_loop l ?ar"
      by (auto simp: Read_recv_def seg_ok_def split: if_splits)
    have st: "ar_stream (?ar\<lparr>ar_consumer := C_Idle\<rparr>) = ar_stream (ar\<lparr>ar_consumer := C_Idle\<rparr>)"
      using Cons by (simp add: ar_stream_def ar_inflight_def ar_delivered_def)
    have dl: "ar_delivered (?ar\<lparr>ar_consumer := C_Idle\<rparr>) = ar_delivered (ar\<lparr>ar_consumer := C_Idle\<rparr>)"
      by (simp add: ar_delivered_def)
    from core st dl Cons have "ar_inv xs (?ar\<lparr>ar_consumer := C_Idle\<rparr>)"
      by (auto simp: ar_inv_def producer_ok_def split: ar_producer.splits)
    from Read_loop_inv[OF this l] ar' show ?thesis by simp
  qed
qed

lemma ar_step_inv:
  assumes "ar_inv xs ar" and "ar_step a ar = Some ar'" and "reading_action a"
  shows "ar_inv xs ar'"
proof (cases a)
  case A_Start
  with assms ar_inv_Start show ?thesis by simp
next
  case (A_Fill which)
  with assms ar_inv_fill show ?thesis by simp
next
  case A_Send
  with assms ar_inv_send show ?thesis by simp
next
  case A_SendAbort
  with assms show ?thesis
    by (auto simp: producer_abort_def ar_inv_def split: ar_producer.splits if_splits)
next
  case (A_Read l)
  with assms ar_inv_Read show ?thesis by simp
next
  case A_Recv
  with assms ar_inv_recv show ?thesis by simp
next
  case A_RecvAbort
  with assms show ?thesis
    by (auto simp: Read_abort_def ar_inv_def split: ar_consumer.splits if_splits)
next
  case A_Close
  with assms show ?thesis by simp
qed

lemma ar_run_inv:
  "ar_inv xs ar \<Longrightarrow> ar_run as ar = Some ar' \<Longrightarrow> \<forall>a \<in> set as. reading_action a \<Longrightarrow> ar_inv xs ar'"
proof (induction as arbitrary: ar)
  case Nil
  then show ?case by simp
next
  case (Cons a as)
  from Cons.prems(2) obtain ar1 where s: "ar_step a ar = Some ar1" and r: "ar_run as ar1 = Some ar'"
    by (cases "ar_step a ar") auto
  from Cons.prems(3) have a: "reading_action a" and as: "\<forall>a \<in> set as. reading_action a" by simp_all
  from Cons.IH[OF ar_step_inv[OF Cons.prems(1) s a] r as] show ?case .
qed

lemma ar_step_ChannelSize:
  assumes "ar_step a ar = Some ar'"
  shows "ar_ChannelSize ar' = ar_ChannelSize ar"
proof (cases a)
  case A_Start
  with assms show ?thesis by (auto simp: AsyncReader_Start_def split: if_splits)
next
  case (A_Fill which)
  with assms producer_fill_fields[of which ar ar'] show ?thesis by simp
next
  case A_Send
  with assms show ?thesis
    by (auto simp: producer_send_def split: ar_producer.splits if_splits)
next
  case A_SendAbort
  with assms show ?thesis
    by (auto simp: producer_abort_def split: ar_producer.splits if_splits)
next
  case (A_Read l)
  with assms show ?thesis
    by (auto simp: AsyncReader_Read_def Read_loop_def Read_tail_def split: if_splits)
next
  case A_Recv
  with assms show ?thesis
    by (auto simp: Read_recv_def Read_loop_def Read_tail_def
        split: ar_consumer.splits list.splits if_splits)
next
  case A_RecvAbort
  with assms show ?thesis
    by (auto simp: Read_abort_def split: ar_consumer.splits if_splits)
next
  case A_Close
  with assms show ?thesis by (auto simp: AsyncReader_Close_def split: if_splits)
qed

lemma ar_run_ChannelSize: "ar_run as ar = Some ar' \<Longrightarrow> ar_ChannelSize ar' = ar_ChannelSize ar"
proof (induction as arbitrary: ar)
  case Nil
  then show ?case by simp
next
  case (Cons a as)
  from Cons.prems obtain ar1 where s: "ar_step a ar = Some ar1" and r: "ar_run as ar1 = Some ar'"
    by (cases "ar_step a ar") auto
  from Cons.IH[OF r] ar_step_ChannelSize[OF s] show ?case by simp
qed

lemma pending_Read_can_go_on:
  assumes inv: "ar_inv xs ar" and sel: "ar_consumer ar = C_Select l"
  shows "\<exists>a \<in> set [A_Start, A_Fill None, A_Send, A_Recv]. ar_step a ar \<noteq> None"
proof (cases "ar_producer ar")
  case P_NotStarted
  then have "ar_step A_Start ar \<noteq> None" by (simp add: AsyncReader_Start_def)
  then show ?thesis by simp
next
  case P_Loop
  then have "ar_step (A_Fill None) ar \<noteq> None"
    by (simp add: producer_fill_def split: prod.splits)
  then show ?thesis by simp
next
  case (P_Select s)
  show ?thesis
  proof (cases "ar_c ar")
    case Nil
    from inv P_Select have "\<not> ar_c_closed ar" by (simp add: ar_inv_def producer_ok_def)
    moreover from Nil sel have "c_ready ar" by (auto simp: c_ready_def)
    ultimately have "ar_step A_Send ar \<noteq> None" using P_Select by (simp add: producer_send_def)
    then show ?thesis by simp
  next
    case (Cons s' rest)
    with sel have "ar_step A_Recv ar \<noteq> None" by (simp add: Read_recv_def)
    then show ?thesis by simp
  qed
next
  case P_Returned
  with inv have "ar_c_closed ar" by (simp add: ar_inv_def producer_ok_def)
  with sel have "ar_step A_Recv ar \<noteq> None" by (simp add: Read_recv_def split: list.splits)
  then show ?thesis by simp
qed

lemma ar_run_append:
  "ar_run (as @ bs) ar = (case ar_run as ar of None \<Rightarrow> None | Some ar' \<Rightarrow> ar_run bs ar')"
  by (induction as arbitrary: ar) (auto split: option.splits)

lemma round_full:
  assumes "ar_quiet k ar" and "0 < k" and "k \<le> length (ar_r ar)"
  shows "\<exists>ar'. ar_run [A_Read k, A_Fill None, A_Send, A_Recv] ar = Some ar' \<and> ar_quiet k ar' \<and>
           ar_r ar' = drop k (ar_r ar)"
  using assms
  by (auto simp: ar_quiet_def AsyncReader_Read_def Read_loop_def Read_tail_def producer_fill_def
      ReadFull_def producer_send_def c_ready_def Read_recv_def)

lemma round_short:
  assumes "ar_quiet k ar" and "0 < k" and "length (ar_r ar) < k" and "ar_r ar \<noteq> []"
  shows "\<exists>ar'. ar_run [A_Read k, A_Fill None, A_Send, A_Recv, A_Recv, A_Read k, A_Recv] ar = Some ar' \<and>
           (\<exists>r \<in> set (ar_returned ar'). snd r = Some EOF)"
  using assms
  by (auto simp: ar_quiet_def AsyncReader_Read_def Read_loop_def Read_tail_def producer_fill_def
      ReadFull_def producer_send_def c_ready_def Read_recv_def)

lemma round_empty:
  assumes "ar_quiet k ar" and "0 < k" and "ar_r ar = []"
  shows "\<exists>ar'. ar_run [A_Read k, A_Fill None, A_Send, A_Recv, A_Recv] ar = Some ar' \<and>
           (\<exists>r \<in> set (ar_returned ar'). snd r = Some EOF)"
  using assms
  by (auto simp: ar_quiet_def AsyncReader_Read_def Read_loop_def Read_tail_def producer_fill_def
      ReadFull_def producer_send_def c_ready_def Read_recv_def)

lemma read_to_end:
  assumes "0 < k"
  shows "ar_quiet k ar \<Longrightarrow>
     \<exists>as ar'. list_all reading_action as \<and> ar_run as ar = Some ar' \<and>
        (\<exists>r \<in> set (ar_returned ar'). snd r = Some EOF)"
proof (induction "length (ar_r ar)" arbitrary: ar rule: less_induct)
  case less
  show ?case
  proof (cases "k \<le> length (ar_r ar)")
    case True
    from round_full[OF less.prems assms True] obtain ar1 where
      r1: "ar_run [A_Read k, A_Fill None, A_Send, A_Recv] ar = Some ar1" and q1: "ar_quiet k ar1"
      and s1: "ar_r ar1 = drop k (ar_r ar)" by blast
    have "length (ar_r ar1) < length (ar_r ar)" using s1 True assms by simp
    from less.hyps[OF this q1] obtain as ar' where
      as: "list_all reading_action as" "ar_run as ar1 = Some ar'"
      "\<exists>r \<in> set (ar_returned ar'). snd r = Some EOF" by blast
    have "list_all reading_action ([A_Read k, A_Fill None, A_Send, A_Recv] @ as)"
      using as(1) assms by simp
    moreover have "ar_run ([A_Read k, A_Fill None, A_Send, A_Recv] @ as) ar = Some ar'"
      unfolding ar_run_append r1 using as(2) by simp
    ultimately show ?thesis using as(3) by blast
  next
    case False
    show ?thesis
    proof (cases "ar_r ar = []")
      case True
      from round_empty[OF less.prems assms True] obtain ar' where
        "ar_run [A_Read k, A_Fill None, A_Send, A_Recv, A_Recv] ar = Some ar'"
        "\<exists>r \<in> set (ar_returned ar'). snd r = Some EOF" by blast
      moreover have "list_all reading_action [A_Read k, A_Fill None, A_Send, A_Recv, A_Recv]"
        using assms by simp
      ultimately show ?thesis by blast
    next
      case ne: False
      from False have "length (ar_r ar) < k" by simp
      from round_short[OF less.prems assms this ne] obtain ar' where
        "ar_run [A_Read k, A_Fill None, A_Send, A_Recv, A_Recv, A_Read k, A_Recv] ar = Some ar'"
        "\<exists>r \<in> set (ar_returned ar'). snd r = Some EOF" by blast
      moreover have "list_all reading_action
          [A_Read k, A_Fill None, A_Send, A_Recv, A_Recv, A_Read k, A_Recv]"
        using assms by simp
      ultimately show ?thesis by blast
    qed
  qed
qed

lemma ar_inv_initial:
  "ar_inv xs ((NewAsyncReader xs)\<lparr>ar_BufferSize := k, ar_ChannelSize := n\<rparr>)"
  by (simp add: ar_inv_def NewAsyncReader_def ar_stream_def ar_inflight_def ar_delivered_def
      producer_ok_def consumer_ok_def)

lemma read_to_end_from_start:
  assumes "0 < k"
  shows "\<exists>as ar'. list_all reading_action as \<and>
           ar_run as ((NewAsyncReader xs)\<lparr>ar_BufferSize := k, ar_ChannelSize := n\<rparr>) = Some ar' \<and>
           (\<exists>r \<in> set (ar_returned ar'). snd r = Some EOF) \<and> ar_delivered ar' = xs"
proof -
  let ?ar0 = "(NewAsyncReader xs)\<lparr>ar_BufferSize := k, ar_ChannelSize := n\<rparr>"
  obtain ar1 where s: "ar_step A_Start ?ar0 = Some ar1" and q: "ar_quiet k ar1"
    by (simp add: NewAsyncReader_def AsyncReader_Start_def ar_quiet_def)
  from read_to_end[OF assms q] obtain as ar' where
    as: "list_all reading_action as" "ar_run as ar1 = Some ar'"
    "\<exists>r \<in> set (ar_returned ar'). snd r = Some EOF" by blast
  have all: "list_all reading_action (A_Start # as)" using as(1) by simp
  have run: "ar_run (A_Start # as) ?ar0 = Some ar'" using s as(2) by simp
  from all have "\<forall>a \<in> set (A_Start # as). reading_action a" by (simp add: list_all_iff)
  from ar_run_inv[OF ar_inv_initial run this] have "ar_inv xs ar'" .
  with as(3) have "ar_delivered ar' = xs" by (auto simp: ar_inv_def)
  with all run as(3) show ?thesis by blast
qed

text \<open>
  Claim C6, as stated, fails: a call of Read with a destination of length zero returns
  \<open>io.EOF\<close> although nothing of the source has been delivered.
\<close>

theorem AsyncReader_empty_destination_counterexample:
  "map_option ar_returned (ar_run [A_Start, A_Read 0] (NewAsyncReader [1, 2, 3])) =
     Some [([], Some EOF)]"
  by (simp add: NewAsyncReader_def AsyncReader_Start_def AsyncReader_Read_def Read_loop_def
      Read_tail_def)

text \<open>
  Claim C6, amended: every call of Read is given a destination of at least one byte. For
  every finite source \<open>xs\<close>, every positive segment size \<open>k\<close> and queue capacity \<open>n\<close>
  (a channel without buffer, \<open>n = 0\<close>, is one of them), and every interleaving of the
  goroutine of Start with a caller that does not call Close and gives every Read a
  destination of at least one byte: the bytes returned by the calls of Read, concatenated,
  are at every moment a prefix of the source; Read returns no error but \<open>io.EOF\<close>; once a
  Read has returned \<open>io.EOF\<close> the bytes returned are the source exactly; a Read that is
  waiting is never stuck, for the goroutine or the Read itself can take a step; and there
  is such an interleaving in which a Read returns \<open>io.EOF\<close>, so that the source can be
  read to its end, whether it is shorter than a segment or a multiple of the segment size.
\<close>

theorem AsyncReader_reproduces_source:
  assumes "0 < k"
    and "ar_run as ((NewAsyncReader xs)\<lparr>ar_BufferSize := k, ar_ChannelSize := n\<rparr>) = Some ar"
    and "\<forall>a \<in> set as. reading_action a"
  shows "prefix (ar_delivered ar) xs \<and>
         (\<forall>r \<in> set (ar_returned ar). snd r = None \<or> snd r = Some EOF) \<and>
         ((\<exists>r \<in> set (ar_returned ar). snd r = Some EOF) \<longrightarrow> ar_delivered ar = xs) \<and>
         (\<forall>l. ar_consumer ar = C_Select l \<longrightarrow>
            (\<exists>a \<in> set [A_Start, A_Fill None, A_Send, A_Recv]. ar_step a ar \<noteq> None)) \<and>
         (\<exists>as' ar'. list_all reading_action as' \<and>
            ar_run as' ((NewAsyncReader xs)\<lparr>ar_BufferSize := k, ar_ChannelSize := n\<rparr>) = Some ar' \<and>
            (\<exists>r \<in> set (ar_returned ar'). snd r = Some EOF) \<and> ar_delivered ar' = xs)"
proof -
  from ar_run_inv[OF ar_inv_initial assms(2,3)] have inv: "ar_inv xs ar" .
  from inv have "ar_stream ar = xs" by (simp add: ar_inv_def)
  then have "prefix (ar_delivered ar) xs" by (auto simp: ar_stream_def prefix_def)
  moreover from inv have "\<forall>r \<in> set (ar_returned ar). snd r = None \<or> snd r = Some EOF"
    by (auto simp: ar_inv_def)
  moreover from inv have "(\<exists>r \<in> set (ar_returned ar). snd r = Some EOF) \<longrightarrow> ar_delivered ar = xs"
    by (auto simp: ar_inv_def)
  moreover have "\<forall>l. ar_consumer ar = C_Select l \<longrightarrow>
            (\<exists>a \<in> set [A_Start, A_Fill None, A_Send, A_Recv]. ar_step a ar \<noteq> None)"
    using pending_Read_can_go_on[OF inv] by blast
  moreover note read_to_end_from_start[OF assms(1), where xs = xs and n = n]
  ultimately show ?thesis by blast
qed

theorem AsyncReader_reproduces_source_witness:
  "0 < (2 :: nat) \<and>
   ar_run [A_Start, A_Read 2, A_Fill None, A_Send, A_Recv, A_Read 2, A_Fill None, A_Send, A_Recv,
           A_Recv, A_Read 2, A_Recv]
      ((NewAsyncReader [1, 2, 3])\<lparr>ar_BufferSize := 2, ar_ChannelSize := 0\<rparr>) =
     Some \<lparr>ar_r = [], ar_c = [], ar_c_closed = True, ar_abort = False, ar_bufs = [2, 1],
           ar_buf = [], ar_BufferSize = 2, ar_ChannelSize = 0, ar_producer = P_Returned,
           ar_consumer = C_Idle,
           ar_returned = [([1, 2], None), ([3], None), ([], Some EOF)]\<rparr> \<and>
   list_all reading_action [A_Start, A_Read 2, A_Fill None, A_Send, A_Recv, A_Read 2, A_Fill None,
                A_Send, A_Recv, A_Recv, A_Read 2, A_Recv] \<and>
   ar_delivered \<lparr>ar_r = [], ar_c = [], ar_c_closed = True, ar_abort = False, ar_bufs = [2, 1],
           ar_buf = [], ar_BufferSize = 2, ar_ChannelSize = 0, ar_producer = P_Returned,
           ar_consumer = C_Idle,
           ar_returned = [([1, 2], None), ([3], None), ([], Some EOF)]\<rparr> = [1, 2, 3]"
  using AsyncReader_reproduces_source
    [where as = "[A_Start, A_Read 2, A_Fill None, A_Send, A_Recv, A_Read 2, A_Fill None, A_Send,
           A_Recv, A_Recv, A_Read 2, A_Recv]" and xs = "[1, 2, 3]" and k = 2 and n = 0 and ar =
       "\<lparr>ar_r = [], ar_c = [], ar_c_closed = True, ar_abort = False, ar_bufs = [2, 1],
           ar_buf = [], ar_BufferSize = 2, ar_ChannelSize = 0, ar_producer = P_Returned,
           ar_consumer = C_Idle,
           ar_returned = [([1, 2], None), ([3], None), ([], Some EOF)]\<rparr>"]
  by (simp add: NewAsyncReader_def AsyncReader_Start_def AsyncReader_Read_def Read_loop_def
      Read_tail_def producer_fill_def producer_send_def c_ready_def Read_recv_def ReadFull_def
      ar_delivered_def)

section \<open>Properties of MultiWriter: what the sinks receive\<close>

lemma payloads_append: "payloads (rs @ rs') = payloads rs @ payloads rs'"
  by (induction rs rule: payloads.induct) simp_all

lemma mw_inv_initial:
  assumes "\<forall>w \<in> set ws. fresh_sink w"
  shows "mw_inv ((NewMultiWriter ws)\<lparr>mw_WriteChanLength := n\<rparr>)"
  using assms
  by (auto simp: mw_inv_def NewMultiWriter_def mw_I1_def mw_I2_def mw_I3_def mw_I4_def mw_I5_def
      mw_I6_def mw_I7_def mw_I8_def writer_ok_def sent_to_def sink_bad_def fresh_sink_def is_sending_def
      is_active_def)

lemma mw_invD:
  assumes "mw_inv mw" and "mw_main mw \<noteq> M_Panicked" and "list_all ret_good (mw_returned mw)"
  shows "mw_I1 mw" "mw_I2 mw" "mw_I3 mw" "mw_I4 mw" "mw_I5 mw" "mw_I6 mw" "mw_I7 mw" "mw_I8 mw"
  using assms by (auto simp: mw_inv_def)

lemma list_ex_append_WriteRet:
  "list_ex is_CloseRet (rs @ [WriteRet d n e]) = list_ex is_CloseRet rs"
  by (simp add: is_CloseRet_def)

lemma filter_active_init:
  "length (filter (\<lambda>mww. is_active (mww_worker mww))
     (map (\<lambda>mww. mww\<lparr>mww_wc := [], mww_wc_closed := False, mww_worker := W_Range\<rparr>) xs)) = length xs"
  by (induction xs) (simp_all add: is_active_def)

lemma filter_active_none:
  "\<forall>i < length xs. mww_worker (xs ! i) = W_NotStarted \<Longrightarrow>
   length (filter (\<lambda>mww. is_active (mww_worker mww)) xs) = 0"
proof (induction xs)
  case Nil
  show ?case by simp
next
  case (Cons x xs)
  from Cons.prems have "mww_worker x = W_NotStarted" by auto
  moreover from Cons.prems have "\<forall>i < length xs. mww_worker (xs ! i) = W_NotStarted" by auto
  ultimately show ?case using Cons.IH by (simp add: is_active_def)
qed

lemma init_inv:
  assumes I: "mw_I1 mw" "mw_I2 mw" "mw_I3 mw" "mw_I4 mw" "mw_I5 mw" "mw_I6 mw" "mw_I7 mw" "mw_I8 mw"
    and ni: "\<not> mw_inited mw" and nc: "\<not> mw_closed mw"
  shows "mw_I1 (MultiWriter_init mw) \<and> mw_I2 (MultiWriter_init mw) \<and> mw_I3 (MultiWriter_init mw) \<and>
         mw_I4 (MultiWriter_init mw) \<and> mw_I5 (MultiWriter_init mw) \<and> mw_I6 (MultiWriter_init mw) \<and>
         mw_I7 (MultiWriter_init mw) \<and> mw_I8 (MultiWriter_init mw) \<and>
         mw_main (MultiWriter_init mw) = M_Idle"
proof -
  let ?mw = "MultiWriter_init mw"
  from I(4) ni have a: "\<forall>i < length (mw_writers mw).
           mww_worker (mw_writers mw ! i) = W_NotStarted \<and>
           snk_log (mww_w (mw_writers mw ! i)) = [] \<and>
           snk_closed (mww_w (mw_writers mw ! i)) = None"
    and p: "payloads (mw_returned mw) = []" and m: "mw_main mw = M_Idle"
    by (simp_all add: mw_I4_def)
  from a have "\<forall>i < length (mw_writers mw). mww_worker (mw_writers mw ! i) = W_NotStarted" by blast
  from filter_active_none[OF this] I(3) have wg: "mw_wg mw = 0" by (simp add: mw_I3_def)
  have 1: "mw_I1 ?mw"
    using a p m by (auto simp: mw_I1_def writer_ok_def MultiWriter_init_def sent_to_def is_sending_def)
  have 2: "mw_I2 ?mw"
    using a by (auto simp: mw_I2_def MultiWriter_init_def sink_bad_def)
  have w3: "mw_writers ?mw =
      map (\<lambda>mww. mww\<lparr>mww_wc := [], mww_wc_closed := False, mww_worker := W_Range\<rparr>) (mw_writers mw)"
    and g3: "mw_wg ?mw = mw_wg mw + length (mw_writers mw)"
    by (simp_all add: MultiWriter_init_def)
  have 3: "mw_I3 ?mw"
    unfolding mw_I3_def w3 g3 filter_active_init using wg by simp
  have 4: "mw_I4 ?mw" by (auto simp: mw_I4_def MultiWriter_init_def)
  have 5: "mw_I5 ?mw" using I(5) by (auto simp: mw_I5_def MultiWriter_init_def)
  have 6: "mw_I6 ?mw" using m by (simp add: mw_I6_def MultiWriter_init_def)
  have 7: "mw_I7 ?mw" using I(7) nc by (auto simp: mw_I7_def MultiWriter_init_def)
  have 8: "mw_I8 ?mw" using a by (auto simp: mw_I8_def MultiWriter_init_def)
  from 1 2 3 4 5 6 7 8 m show ?thesis by (simp add: MultiWriter_init_def)
qed

lemma Write_next_inv:
  assumes 1: "mw_I1 (mw\<lparr>mw_main := M_Write data i\<rparr>)"
    and I: "mw_I2 mw" "mw_I3 mw" "mw_I4 mw" "mw_I5 mw" "mw_I7 mw" "mw_I8 mw"
    and ini: "mw_inited mw" and nc: "\<not> mw_closed mw" and le: "i \<le> length (mw_writers mw)"
  shows "mw_I1 (Write_next data i mw) \<and> mw_I2 (Write_next data i mw) \<and>
         mw_I3 (Write_next data i mw) \<and> mw_I4 (Write_next data i mw) \<and>
         mw_I5 (Write_next data i mw) \<and> mw_I6 (Write_next data i mw) \<and>
         mw_I7 (Write_next data i mw) \<and> mw_I8 (Write_next data i mw)"
proof (cases "i < length (mw_writers mw)")
  case True
  then have eq: "Write_next data i mw = mw\<lparr>mw_main := M_Write data i\<rparr>"
    by (simp add: Write_next_def)
  have "mw_I2 (mw\<lparr>mw_main := M_Write data i\<rparr>)" using I(1) by (simp add: mw_I2_def)
  moreover have "mw_I3 (mw\<lparr>mw_main := M_Write data i\<rparr>)" using I(2) by (simp add: mw_I3_def)
  moreover have "mw_I4 (mw\<lparr>mw_main := M_Write data i\<rparr>)" using I(3) ini by (simp add: mw_I4_def)
  moreover have "mw_I5 (mw\<lparr>mw_main := M_Write data i\<rparr>)" using I(4) by (simp add: mw_I5_def)
  moreover have "mw_I6 (mw\<lparr>mw_main := M_Write data i\<rparr>)"
    using True ini nc by (simp add: mw_I6_def)
  moreover have "mw_I7 (mw\<lparr>mw_main := M_Write data i\<rparr>)" using I(5) by (simp add: mw_I7_def)
  moreover have "mw_I8 (mw\<lparr>mw_main := M_Write data i\<rparr>)" using I(6) by (simp add: mw_I8_def)
  ultimately show ?thesis unfolding eq using 1 by blast
next
  case False
  with le have iN: "i = length (mw_writers mw)" by simp
  let ?mw = "mw\<lparr>mw_main := M_Idle,
                 mw_returned := mw_returned mw @ [WriteRet data (length data) None]\<rparr>"
  from False have eq: "Write_next data i mw = ?mw" by (simp add: Write_next_def)
  have s: "\<And>k. k < length (mw_writers mw) \<Longrightarrow>
              sent_to ?mw k = sent_to (mw\<lparr>mw_main := M_Write data i\<rparr>) k"
    using iN by (simp add: sent_to_def payloads_append)
  have "mw_I1 ?mw" using 1 s by (simp add: mw_I1_def writer_ok_def)
  moreover have "mw_I2 ?mw" using I(1) by (simp add: mw_I2_def)
  moreover have "mw_I3 ?mw" using I(2) by (simp add: mw_I3_def)
  moreover have "mw_I4 ?mw" using I(3) ini by (simp add: mw_I4_def)
  moreover have "mw_I5 ?mw" using I(4) by (simp add: mw_I5_def)
  moreover have "mw_I6 ?mw" by (simp add: mw_I6_def)
  moreover have "mw_I7 ?mw" using I(5) nc by (simp add: mw_I7_def is_CloseRet_def)
  moreover have "mw_I8 ?mw" using I(6) by (simp add: mw_I8_def)
  ultimately show ?thesis unfolding eq by blast
qed

lemma mw_inv_Write:
  assumes "mw_inv mw" and "MultiWriter_Write data mw = Some mw'"
  shows "mw_inv mw'"
proof (cases "mw_main mw' = M_Panicked \<or> \<not> list_all ret_good (mw_returned mw')")
  case True
  then show ?thesis by (auto simp: mw_inv_def)
next
  case False
  from assms(2) have idle: "mw_main mw = M_Idle"
    by (simp add: MultiWriter_Write_def split: if_splits)
  have nc: "\<not> mw_closed mw"
  proof
    assume "mw_closed mw"
    with assms(2) idle have "mw' = mw\<lparr>mw_returned := mw_returned mw @ [WriteRet data 0 (Some ErrClosed)]\<rparr>"
      by (simp add: MultiWriter_Write_def)
    with False show False by (simp add: ret_good_def)
  qed
  let ?mw1 = "if mw_inited mw then mw else MultiWriter_init mw"
  from assms(2) idle nc have mw': "mw' = Write_next data 0 ?mw1"
    by (simp add: MultiWriter_Write_def)
  have good: "list_all ret_good (mw_returned mw)"
    using False mw' by (auto simp: Write_next_def MultiWriter_init_def split: if_splits)
  note I = mw_invD[OF assms(1) _ good]
  have np: "mw_main mw \<noteq> M_Panicked" using idle by simp
  have core: "mw_I1 ?mw1 \<and> mw_I2 ?mw1 \<and> mw_I3 ?mw1 \<and> mw_I4 ?mw1 \<and> mw_I5 ?mw1 \<and> mw_I6 ?mw1 \<and>
         mw_I7 ?mw1 \<and> mw_I8 ?mw1 \<and> mw_main ?mw1 = M_Idle"
  proof (cases "mw_inited mw")
    case True
    with I[OF np] idle show ?thesis by simp
  next
    case ni: False
    from init_inv[OF I[OF np] ni nc] ni show ?thesis by simp
  qed
  have ini1: "mw_inited ?mw1" by (simp add: MultiWriter_init_def)
  have nc1: "\<not> mw_closed ?mw1" using nc by (simp add: MultiWriter_init_def)
  have "\<And>k. sent_to (?mw1\<lparr>mw_main := M_Write data 0\<rparr>) k = sent_to ?mw1 k"
    using core by (simp add: sent_to_def)
  then have 1: "mw_I1 (?mw1\<lparr>mw_main := M_Write data 0\<rparr>)"
    using core by (simp add: mw_I1_def writer_ok_def)
  from Write_next_inv[OF 1 _ _ _ _ _ _ ini1 nc1] core
  have "mw_I1 mw' \<and> mw_I2 mw' \<and> mw_I3 mw' \<and> mw_I4 mw' \<and> mw_I5 mw' \<and> mw_I6 mw' \<and> mw_I7 mw' \<and>
        mw_I8 mw'"
    unfolding mw' by simp
  then show ?thesis by (simp add: mw_inv_def)
qed

lemma filter_active_update:
  assumes "i < length xs" and "is_active (mww_worker y) = is_active (mww_worker (xs ! i))"
  shows "length (filter (\<lambda>mww. is_active (mww_worker mww)) (xs[i := y])) =
         length (filter (\<lambda>mww. is_active (mww_worker mww)) xs)"
proof -
  have "xs = take i xs @ xs ! i # drop (Suc i) xs" using assms(1) by (rule id_take_nth_drop)
  then have "length (filter (\<lambda>mww. is_active (mww_worker mww)) xs) =
     length (filter (\<lambda>mww. is_active (mww_worker mww)) (take i xs @ xs ! i # drop (Suc i) xs))"
    by simp
  moreover have "xs[i := y] = take i xs @ y # drop (Suc i) xs"
    using assms(1) by (rule upd_conv_take_nth_drop)
  ultimately show ?thesis using assms(2) by simp
qed

lemma filter_active_done:
  assumes "i < length xs" and "is_active (mww_worker (xs ! i))" and "\<not> is_active (mww_worker y)"
  shows "length (filter (\<lambda>mww. is_active (mww_worker mww)) (xs[i := y])) =
         length (filter (\<lambda>mww. is_active (mww_worker mww)) xs) - 1"
proof -
  have "xs = take i xs @ xs ! i # drop (Suc i) xs" using assms(1) by (rule id_take_nth_drop)
  then have "length (filter (\<lambda>mww. is_active (mww_worker mww)) xs) =
     length (filter (\<lambda>mww. is_active (mww_worker mww)) (take i xs @ xs ! i # drop (Suc i) xs))"
    by simp
  moreover have "xs[i := y] = take i xs @ y # drop (Suc i) xs"
    using assms(1) by (rule upd_conv_take_nth_drop)
  ultimately show ?thesis using assms(2,3) by simp
qed

lemma mw_inv_send:
  assumes "mw_inv mw" and "Write_send mw = Some mw'"
  shows "mw_inv mw'"
proof (cases "mw_main mw' = M_Panicked \<or> \<not> list_all ret_good (mw_returned mw')")
  case True
  then show ?thesis by (auto simp: mw_inv_def)
next
  case False
  from assms(2) obtain data j where main: "mw_main mw = M_Write data j"
    by (auto simp: Write_send_def split: mw_main.splits)
  let ?mww = "mw_writers mw ! j"
  let ?mw2 = "mw\<lparr>mw_writers := (mw_writers mw)[j := ?mww\<lparr>mww_wc := mww_wc ?mww @ [data]\<rparr>]\<rparr>"
  from assms(2) main False have j: "j < length (mw_writers mw)" and nclosed: "\<not> mww_wc_closed ?mww"
    and mw': "mw' = Write_next data (Suc j) ?mw2"
    by (auto simp: Write_send_def Let_def split: if_splits)
  have good: "list_all ret_good (mw_returned mw)"
    using False mw' by (auto simp: Write_next_def split: if_splits)
  have np: "mw_main mw \<noteq> M_Panicked" using main by simp
  note I = mw_invD[OF assms(1) np good]
  from I(6) main have nc: "\<not> mw_closed mw" and ini: "mw_inited mw" by (simp_all add: mw_I6_def)
  have 1: "mw_I1 (?mw2\<lparr>mw_main := M_Write data (Suc j)\<rparr>)"
    unfolding mw_I1_def
  proof (intro allI impI)
    fix k assume "k < length (mw_writers (?mw2\<lparr>mw_main := M_Write data (Suc j)\<rparr>))"
    then have k: "k < length (mw_writers mw)" by simp
    from I(1) k have ok: "writer_ok mw k" by (simp add: mw_I1_def)
    show "writer_ok (?mw2\<lparr>mw_main := M_Write data (Suc j)\<rparr>) k"
    proof (cases "k = j")
      case True
      from ok True nclosed main j show ?thesis
        by (auto simp: writer_ok_def sent_to_def)
    next
      case ne: False
      then have "(k < Suc j) = (k < j)" by auto
      with ok ne main j k show ?thesis
        by (simp add: writer_ok_def sent_to_def)
    qed
  qed
  have 2: "mw_I2 ?mw2" using I(2) j
    by (auto simp: mw_I2_def nth_list_update)
  have 3: "mw_I3 ?mw2" using I(3) filter_active_update[OF j, of "?mww\<lparr>mww_wc := mww_wc ?mww @ [data]\<rparr>"]
    by (simp add: mw_I3_def)
  have 4: "mw_I4 ?mw2" using I(4) ini j by (auto simp: mw_I4_def nth_list_update)
  have 5: "mw_I5 ?mw2" using I(5) j by (auto simp: mw_I5_def nth_list_update)
  have 7: "mw_I7 ?mw2" using I(7) j nc by (auto simp: mw_I7_def)
  have 8: "mw_I8 ?mw2" using I(8) j by (auto simp: mw_I8_def nth_list_update)
  have ini2: "mw_inited ?mw2" using ini by simp
  have nc2: "\<not> mw_closed ?mw2" using nc by simp
  have le: "Suc j \<le> length (mw_writers ?mw2)" using j by simp
  from Write_next_inv[OF 1 2 3 4 5 7 8 ini2 nc2 le]
  show ?thesis unfolding mw' by (simp add: mw_inv_def)
qed

lemma mw_inv_recv_err:
  assumes "mw_inv mw" and "Write_recv_err mw = Some mw'"
  shows "mw_inv mw'"
proof (cases "mw_main mw' = M_Panicked \<or> \<not> list_all ret_good (mw_returned mw')")
  case True
  then show ?thesis by (auto simp: mw_inv_def)
next
  case False
  from assms(2) obtain data j where main: "mw_main mw = M_Write data j"
    by (auto simp: Write_recv_err_def split: mw_main.splits)
  from assms(2) main False have e: "mw_err mw = []" "mw_err_closed mw"
    and mw': "mw' = mw\<lparr>mw_main := M_Idle, mw_returned := mw_returned mw @ [WriteRet data 0 None]\<rparr>"
    by (auto simp: Write_recv_err_def ret_good_def split: list.splits if_splits)
  from False mw' have good: "list_all ret_good (mw_returned mw)" by simp
  have np: "mw_main mw \<noteq> M_Panicked" using main by simp
  note I = mw_invD[OF assms(1) np good]
  from I(6) main have "\<not> mw_closed mw" by (simp add: mw_I6_def)
  with I(5) e(2) show ?thesis by (simp add: mw_I5_def)
qed

lemma filter_active_close:
  "length (filter (\<lambda>mww. is_active (mww_worker mww))
     (map (\<lambda>mww. mww\<lparr>mww_wc_closed := True\<rparr>) xs)) =
   length (filter (\<lambda>mww. is_active (mww_worker mww)) xs)"
  by (induction xs) simp_all

lemma filter_active_zero:
  assumes "length (filter (\<lambda>mww. is_active (mww_worker mww)) xs) = 0" and "i < length xs"
  shows "\<not> is_active (mww_worker (xs ! i))"
proof -
  from assms(1) have "filter (\<lambda>mww. is_active (mww_worker mww)) xs = []" by simp
  then have "\<forall>x \<in> set xs. \<not> is_active (mww_worker x)" by (simp add: filter_empty_conv)
  with assms(2) show ?thesis by simp
qed

lemma mw_inv_Close:
  assumes "mw_inv mw" and "MultiWriter_Close mw = Some mw'"
  shows "mw_inv mw'"
proof (cases "mw_main mw' = M_Panicked \<or> \<not> list_all ret_good (mw_returned mw')")
  case True
  then show ?thesis by (auto simp: mw_inv_def)
next
  case False
  from assms(2) have idle: "mw_main mw = M_Idle"
    by (simp add: MultiWriter_Close_def split: if_splits)
  have good: "list_all ret_good (mw_returned mw)"
    using False assms(2) idle by (auto simp: MultiWriter_Close_def split: if_splits)
  have np: "mw_main mw \<noteq> M_Panicked" using idle by simp
  note I = mw_invD[OF assms(1) np good]
  show ?thesis
  proof (cases "mw_inited mw")
    case True
    let ?ws = "map (\<lambda>mww. mww\<lparr>mww_wc_closed := True\<rparr>) (mw_writers mw)"
    from assms(2) idle True False
    have mw': "mw' = mw\<lparr>mw_closed := True, mw_writers := ?ws, mw_main := M_CloseWait\<rparr>"
      by (auto simp: MultiWriter_Close_def split: if_splits)
    have s: "\<And>k. sent_to mw' k = sent_to mw k" using idle by (simp add: mw' sent_to_def)
    have 1: "mw_I1 mw'" using I(1) s by (auto simp: mw_I1_def writer_ok_def mw')
    have 2: "mw_I2 mw'" using I(2) by (auto simp: mw_I2_def mw')
    have 3: "mw_I3 mw'" using I(3) filter_active_close[of "mw_writers mw"]
      by (simp add: mw_I3_def mw' del: map_map)
    have 4: "mw_I4 mw'" using I(4) True by (auto simp: mw_I4_def mw')
    have 5: "mw_I5 mw'" by (simp add: mw_I5_def mw')
    have 6: "mw_I6 mw'" using True by (simp add: mw_I6_def mw')
    have 7: "mw_I7 mw'" using I(7) by (auto simp: mw_I7_def mw')
    have 8: "mw_I8 mw'" using I(8) by (auto simp: mw_I8_def mw')
    from 1 2 3 4 5 6 7 8 show ?thesis by (simp add: mw_inv_def)
  next
    case ni: False
    from assms(2) idle ni
    have mw': "mw' = mw\<lparr>mw_closed := True, mw_returned := mw_returned mw @ [CloseRet None]\<rparr>"
      by (simp add: MultiWriter_Close_def)
    have s: "\<And>k. sent_to mw' k = sent_to mw k"
      by (simp add: mw' sent_to_def payloads_append)
    have 1: "mw_I1 mw'" using I(1) s by (simp add: mw_I1_def writer_ok_def mw')
    have 2: "mw_I2 mw'" using I(2) by (simp add: mw_I2_def mw')
    have 3: "mw_I3 mw'" using I(3) by (simp add: mw_I3_def mw')
    have 4: "mw_I4 mw'" using I(4) ni by (simp add: mw_I4_def mw' payloads_append)
    have 5: "mw_I5 mw'" by (simp add: mw_I5_def mw')
    have 6: "mw_I6 mw'" using idle by (simp add: mw_I6_def mw')
    have 7: "mw_I7 mw'" using ni by (simp add: mw_I7_def mw')
    have 8: "mw_I8 mw'" using I(8) by (simp add: mw_I8_def mw')
    from 1 2 3 4 5 6 7 8 show ?thesis by (simp add: mw_inv_def)
  qed
qed

lemma mw_inv_Close_finish:
  assumes "mw_inv mw" and "Close_finish mw = Some mw'"
  shows "mw_inv mw'"
proof (cases "mw_main mw' = M_Panicked \<or> \<not> list_all ret_good (mw_returned mw')")
  case True
  then show ?thesis by (auto simp: mw_inv_def)
next
  case False
  from assms(2) have main: "mw_main mw = M_CloseWait" and wg: "mw_wg mw = 0"
    by (simp_all add: Close_finish_def split: if_splits)
  from assms(2) main wg False have e: "mw_err mw = []"
    and mw': "mw' = mw\<lparr>mw_err_closed := True, mw_main := M_Idle,
                        mw_returned := mw_returned mw @ [CloseRet None]\<rparr>"
    by (auto simp: Close_finish_def ret_good_def split: if_splits list.splits)
  from False mw' have good: "list_all ret_good (mw_returned mw)" by simp
  have np: "mw_main mw \<noteq> M_Panicked" using main by simp
  note I = mw_invD[OF assms(1) np good]
  from I(6) main have ini: "mw_inited mw" and cl: "mw_closed mw" by (simp_all add: mw_I6_def)
  have alldone: "\<forall>i < length (mw_writers mw). mww_worker (mw_writers mw ! i) = W_Done"
  proof (intro allI impI)
    fix i assume i: "i < length (mw_writers mw)"
    from I(3) wg have "length (filter (\<lambda>mww. is_active (mww_worker mww)) (mw_writers mw)) = 0"
      by (simp add: mw_I3_def)
    from filter_active_zero[OF this i] have "\<not> is_active (mww_worker (mw_writers mw ! i))" .
    moreover from I(4) ini i have "mww_worker (mw_writers mw ! i) \<noteq> W_NotStarted"
      by (simp add: mw_I4_def)
    ultimately show "mww_worker (mw_writers mw ! i) = W_Done" by (simp add: is_active_def)
  qed
  have s: "\<And>k. sent_to mw' k = sent_to mw k"
    using main by (simp add: mw' sent_to_def payloads_append)
  have 1: "mw_I1 mw'" using I(1) s by (simp add: mw_I1_def writer_ok_def mw')
  have 2: "mw_I2 mw'" using I(2) by (simp add: mw_I2_def mw')
  have 3: "mw_I3 mw'" using I(3) by (simp add: mw_I3_def mw')
  have 4: "mw_I4 mw'" using I(4) ini by (simp add: mw_I4_def mw')
  have 5: "mw_I5 mw'" using I(5) cl by (simp add: mw_I5_def mw')
  have 6: "mw_I6 mw'" by (simp add: mw_I6_def mw')
  have 7: "mw_I7 mw'" using cl alldone e by (simp add: mw_I7_def mw')
  have 8: "mw_I8 mw'" using I(8) by (simp add: mw_I8_def mw')
  from 1 2 3 4 5 6 7 8 show ?thesis by (simp add: mw_inv_def)
qed

lemma writer_step_inv:
  assumes I: "mw_I1 mw" "mw_I2 mw" "mw_I3 mw" "mw_I4 mw" "mw_I5 mw" "mw_I6 mw" "mw_I7 mw" "mw_I8 mw"
    and i: "i < length (mw_writers mw)"
    and act: "is_active (mww_worker (mw_writers mw ! i))"
    and c: "mww_wc_closed y = mww_wc_closed (mw_writers mw ! i)"
    and ns: "mww_worker y \<noteq> W_NotStarted"
    and g: "G = (if is_active (mww_worker y) then mw_wg mw else mw_wg mw - 1)"
    and h8: "snk_closed (mww_w y) \<noteq> None \<longrightarrow> has_closed (mww_worker y)"
    and h1: "\<not> sink_bad (mww_w y) \<longrightarrow>
               map fst (snk_log (mww_w y)) @ mww_wc y = sent_to mw i \<and>
               \<not> is_sending (mww_worker y) \<and>
               (mww_worker y = W_Done \<longrightarrow> mww_wc y = [] \<and> mww_wc_closed y)"
    and h2: "E \<noteq> [] \<or>
             (E = mw_err mw \<and>
              (sink_bad (mww_w y) \<longrightarrow>
                 is_sending (mww_worker y) \<or> sink_bad (mww_w (mw_writers mw ! i))) \<and>
              (is_sending (mww_worker (mw_writers mw ! i)) \<longrightarrow> is_sending (mww_worker y)))"
  shows "mw_inv (mw\<lparr>mw_writers := (mw_writers mw)[i := y], mw_err := E, mw_wg := G\<rparr>)"
proof -
  let ?mw = "mw\<lparr>mw_writers := (mw_writers mw)[i := y], mw_err := E, mw_wg := G\<rparr>"
  have ini: "mw_inited mw"
  proof (rule ccontr)
    assume "\<not> mw_inited mw"
    with I(4) i have "mww_worker (mw_writers mw ! i) = W_NotStarted" by (simp add: mw_I4_def)
    with act show False by (simp add: is_active_def)
  qed
  have noclose: "\<not> list_ex is_CloseRet (mw_returned mw)"
  proof
    assume "list_ex is_CloseRet (mw_returned mw)"
    with I(7) ini i have "mww_worker (mw_writers mw ! i) = W_Done" by (simp add: mw_I7_def)
    with act show False by (simp add: is_active_def)
  qed
  have s: "\<And>k. sent_to ?mw k = sent_to mw k" by (simp add: sent_to_def)
  have 1: "mw_I1 ?mw"
    unfolding mw_I1_def
  proof (intro allI impI)
    fix k assume "k < length (mw_writers ?mw)"
    then have k: "k < length (mw_writers mw)" by simp
    show "writer_ok ?mw k"
    proof (cases "k = i")
      case True
      with h1 i s show ?thesis by (simp add: writer_ok_def)
    next
      case False
      from I(1) k have "writer_ok mw k" by (simp add: mw_I1_def)
      with False s show ?thesis by (simp add: writer_ok_def)
    qed
  qed
  have 2: "mw_I2 ?mw"
    unfolding mw_I2_def
  proof (intro impI)
    assume "\<exists>k < length (mw_writers ?mw). sink_bad (mww_w (mw_writers ?mw ! k))"
    then obtain k where k: "k < length (mw_writers mw)"
      and bad: "sink_bad (mww_w (mw_writers ?mw ! k))" by auto
    show "mw_err ?mw \<noteq> [] \<or>
          (\<exists>k < length (mw_writers ?mw). is_sending (mww_worker (mw_writers ?mw ! k)))"
    proof (cases "E \<noteq> []")
      case True
      then show ?thesis by simp
    next
      case False
      with h2 have E: "E = mw_err mw"
        and hb: "sink_bad (mww_w y) \<longrightarrow>
                   is_sending (mww_worker y) \<or> sink_bad (mww_w (mw_writers mw ! i))"
        and hs: "is_sending (mww_worker (mw_writers mw ! i)) \<longrightarrow> is_sending (mww_worker y)"
        by simp_all
      have "is_sending (mww_worker y) \<or>
            (\<exists>k < length (mw_writers mw). sink_bad (mww_w (mw_writers mw ! k)))"
      proof (cases "k = i")
        case True
        with bad i have "sink_bad (mww_w y)" by simp
        with hb i show ?thesis by blast
      next
        case ne: False
        with bad have "sink_bad (mww_w (mw_writers mw ! k))" by simp
        with k show ?thesis by blast
      qed
      then show ?thesis
      proof
        assume "is_sending (mww_worker y)"
        then have "is_sending (mww_worker (mw_writers ?mw ! i))" using i by simp
        then show ?thesis using i by auto
      next
        assume "\<exists>k < length (mw_writers mw). sink_bad (mww_w (mw_writers mw ! k))"
        with I(2) have "mw_err mw \<noteq> [] \<or>
            (\<exists>k < length (mw_writers mw). is_sending (mww_worker (mw_writers mw ! k)))"
          by (simp add: mw_I2_def)
        with False E obtain k' where k': "k' < length (mw_writers mw)"
          and se: "is_sending (mww_worker (mw_writers mw ! k'))" by auto
        have "is_sending (mww_worker (mw_writers ?mw ! k'))"
        proof (cases "k' = i")
          case True
          with se hs i show ?thesis by simp
        next
          case False
          with se show ?thesis by simp
        qed
        with k' show ?thesis by auto
      qed
    qed
  qed
  have 3: "mw_I3 ?mw"
  proof (cases "is_active (mww_worker y)")
    case True
    with filter_active_update[OF i, of y] act g I(3) show ?thesis by (simp add: mw_I3_def)
  next
    case False
    with filter_active_done[OF i act, of y] g I(3) show ?thesis by (simp add: mw_I3_def)
  qed
  have 4: "mw_I4 ?mw" using I(4) ini ns i by (auto simp: mw_I4_def nth_list_update)
  have 5: "mw_I5 ?mw" using I(5) c i by (auto simp: mw_I5_def nth_list_update)
  have 6: "mw_I6 ?mw" using I(6) by (auto simp: mw_I6_def split: mw_main.splits)
  have 7: "mw_I7 ?mw" using noclose by (simp add: mw_I7_def)
  have 8: "mw_I8 ?mw" using I(8) h8 i by (auto simp: mw_I8_def nth_list_update)
  from 1 2 3 4 5 6 7 8 show ?thesis by (simp add: mw_inv_def)
qed

lemma worker_deferred_form:
  assumes "i < length (mw_writers mw)" and nc: "snk_closed (mww_w (mw_writers mw ! i)) = None"
  shows "\<exists>y. worker_deferred i (mw\<lparr>mw_err := E\<rparr>) =
           mw\<lparr>mw_writers := (mw_writers mw)[i := y], mw_err := E,
              mw_wg := (if is_active (mww_worker y) then mw_wg mw else mw_wg mw - 1)\<rparr> \<and>
           mww_wc y = mww_wc (mw_writers mw ! i) \<and>
           mww_wc_closed y = mww_wc_closed (mw_writers mw ! i) \<and>
           snk_log (mww_w y) = snk_log (mww_w (mw_writers mw ! i)) \<and>
           has_closed (mww_worker y) \<and>
           (mww_worker y = W_Done \<or> is_sending (mww_worker y)) \<and>
           (is_sending (mww_worker y) \<longrightarrow> sink_bad (mww_w y)) \<and>
           (sink_bad (mww_w y) \<longrightarrow>
              is_sending (mww_worker y) \<or>
              list_ex bad_call (snk_log (mww_w (mw_writers mw ! i))))"
proof (cases "snk_closer (mww_w (mw_writers mw ! i))")
  case None
  let ?y = "(mw_writers mw ! i)\<lparr>mww_worker := W_Done\<rparr>"
  have "worker_deferred i (mw\<lparr>mw_err := E\<rparr>) =
           mw\<lparr>mw_writers := (mw_writers mw)[i := ?y], mw_err := E,
              mw_wg := (if is_active (mww_worker ?y) then mw_wg mw else mw_wg mw - 1)\<rparr>"
    using None by (simp add: worker_deferred_def Let_def is_active_def)
  then show ?thesis using nc
    by (intro exI[of _ ?y]) (simp add: has_closed_def is_sending_def sink_bad_def)
next
  case (Some cl)
  show ?thesis
  proof (cases "cl (snk_log (mww_w (mw_writers mw ! i)))")
    case None
    let ?y = "(mw_writers mw ! i)
        \<lparr>mww_w := (mww_w (mw_writers mw ! i))\<lparr>snk_closed := Some None\<rparr>, mww_worker := W_Done\<rparr>"
    have "worker_deferred i (mw\<lparr>mw_err := E\<rparr>) =
           mw\<lparr>mw_writers := (mw_writers mw)[i := ?y], mw_err := E,
              mw_wg := (if is_active (mww_worker ?y) then mw_wg mw else mw_wg mw - 1)\<rparr>"
      using Some None by (simp add: worker_deferred_def Let_def is_active_def)
    then show ?thesis
      by (intro exI[of _ ?y]) (simp add: has_closed_def is_sending_def sink_bad_def)
  next
    case err: (Some e)
    let ?y = "(mw_writers mw ! i)
        \<lparr>mww_w := (mww_w (mw_writers mw ! i))\<lparr>snk_closed := Some (Some e)\<rparr>,
         mww_worker := W_SendCloseErr e\<rparr>"
    have "worker_deferred i (mw\<lparr>mw_err := E\<rparr>) =
           mw\<lparr>mw_writers := (mw_writers mw)[i := ?y], mw_err := E,
              mw_wg := (if is_active (mww_worker ?y) then mw_wg mw else mw_wg mw - 1)\<rparr>"
      using Some err by (simp add: worker_deferred_def Let_def is_active_def)
    then show ?thesis
      by (intro exI[of _ ?y]) (simp add: has_closed_def is_sending_def sink_bad_def)
  qed
qed

lemma worker_step_frame:
  assumes "worker_step i mw = Some mw'"
  shows "mw_returned mw' = mw_returned mw \<and> (mw_main mw' = mw_main mw \<or> mw_main mw' = M_Panicked)"
  using assms
  by (auto simp: worker_step_def worker_deferred_def Let_def
      split: if_splits mw_worker.splits list.splits prod.splits option.splits)

lemma sink_bad_log:
  "list_ex bad_call (snk_log w) \<Longrightarrow> sink_bad w"
  by (simp add: sink_bad_def)

lemma mw_inv_worker:
  assumes "mw_inv mw" and "worker_step i mw = Some mw'"
  shows "mw_inv mw'"
proof (cases "mw_main mw' = M_Panicked \<or> \<not> list_all ret_good (mw_returned mw')")
  case True
  then show ?thesis by (auto simp: mw_inv_def)
next
  case False
  from assms(2) have i: "i < length (mw_writers mw)"
    by (simp add: worker_step_def split: if_splits)
  let ?x = "mw_writers mw ! i"
  from worker_step_frame[OF assms(2)] False
  have good: "list_all ret_good (mw_returned mw)" and np: "mw_main mw \<noteq> M_Panicked" by auto
  note I = mw_invD[OF assms(1) np good]
  from I(1) i have ok: "writer_ok mw i" by (simp add: mw_I1_def)
  show ?thesis
  proof (cases "mww_worker ?x")
    case W_NotStarted
    with assms(2) i show ?thesis by (simp add: worker_step_def Let_def)
  next
    case W_Done
    with assms(2) i show ?thesis by (simp add: worker_step_def Let_def)
  next
    case W_Range
    have act: "is_active (mww_worker ?x)" using W_Range by (simp add: is_active_def)
    from I(8) i W_Range have nc: "snk_closed (mww_w ?x) = None"
      by (auto simp: mw_I8_def has_closed_def)
    then have sb: "sink_bad (mww_w ?x) = list_ex bad_call (snk_log (mww_w ?x))"
      by (simp add: sink_bad_def)
    show ?thesis
    proof (cases "mww_wc ?x")
      case Nil
      from assms(2) i W_Range Nil have cl: "mww_wc_closed ?x" and mw': "mw' = worker_deferred i mw"
        by (simp_all add: worker_step_def Let_def split: if_splits)
      have eq: "mw\<lparr>mw_err := mw_err mw\<rparr> = mw" by simp
      from worker_deferred_form[OF i nc, of "mw_err mw", unfolded eq] obtain y where
        y: "worker_deferred i mw =
              mw\<lparr>mw_writers := (mw_writers mw)[i := y], mw_err := mw_err mw,
                 mw_wg := (if is_active (mww_worker y) then mw_wg mw else mw_wg mw - 1)\<rparr>"
        and wc: "mww_wc y = mww_wc ?x" and c: "mww_wc_closed y = mww_wc_closed ?x"
        and lg: "snk_log (mww_w y) = snk_log (mww_w ?x)"
        and hc: "has_closed (mww_worker y)"
        and ds: "mww_worker y = W_Done \<or> is_sending (mww_worker y)"
        and sbad: "is_sending (mww_worker y) \<longrightarrow> sink_bad (mww_w y)"
        and bady: "sink_bad (mww_w y) \<longrightarrow>
              is_sending (mww_worker y) \<or> list_ex bad_call (snk_log (mww_w ?x))"
        by blast
      have ns: "mww_worker y \<noteq> W_NotStarted" using ds by (auto simp: is_sending_def)
      have h1: "\<not> sink_bad (mww_w y) \<longrightarrow>
               map fst (snk_log (mww_w y)) @ mww_wc y = sent_to mw i \<and>
               \<not> is_sending (mww_worker y) \<and>
               (mww_worker y = W_Done \<longrightarrow> mww_wc y = [] \<and> mww_wc_closed y)"
      proof
        assume nb: "\<not> sink_bad (mww_w y)"
        then have "\<not> list_ex bad_call (snk_log (mww_w y))" using sink_bad_log by blast
        then have "\<not> sink_bad (mww_w ?x)" using lg sb by simp
        with ok have "map fst (snk_log (mww_w ?x)) @ mww_wc ?x = sent_to mw i"
          by (simp add: writer_ok_def)
        moreover have "\<not> is_sending (mww_worker y)" using nb sbad by blast
        ultimately show "map fst (snk_log (mww_w y)) @ mww_wc y = sent_to mw i \<and>
               \<not> is_sending (mww_worker y) \<and>
               (mww_worker y = W_Done \<longrightarrow> mww_wc y = [] \<and> mww_wc_closed y)"
          using lg wc c Nil cl by simp
      qed
      have h2: "mw_err mw \<noteq> [] \<or>
             (mw_err mw = mw_err mw \<and>
              (sink_bad (mww_w y) \<longrightarrow> is_sending (mww_worker y) \<or> sink_bad (mww_w ?x)) \<and>
              (is_sending (mww_worker ?x) \<longrightarrow> is_sending (mww_worker y)))"
        using bady sb W_Range by (simp add: is_sending_def)
      have h8: "snk_closed (mww_w y) \<noteq> None \<longrightarrow> has_closed (mww_worker y)" using hc by simp
      from writer_step_inv[OF I i act c ns refl h8 h1 h2] show ?thesis unfolding mw' y .
    next
      case (Cons data rest)
      obtain n err where wr: "snk_write (mww_w ?x) (snk_log (mww_w ?x)) data = (n, err)"
        by (metis prod.exhaust)
      let ?pc = "case err of Some e \<Rightarrow> W_SendWriteErr e
                 | None \<Rightarrow> if n < int (length data) then W_SendWriteErr ErrShortWrite else W_Range"
      let ?y = "?x\<lparr>mww_w := (mww_w ?x)\<lparr>snk_log := snk_log (mww_w ?x) @ [(data, n, err)]\<rparr>,
                    mww_wc := rest, mww_worker := ?pc\<rparr>"
      have pcact: "is_active ?pc" by (simp add: is_active_def split: option.splits)
      from assms(2) i W_Range Cons wr
      have "mw' = mw\<lparr>mw_writers := (mw_writers mw)[i := ?y]\<rparr>"
        by (simp add: worker_step_def Let_def)
      then have mw': "mw' = mw\<lparr>mw_writers := (mw_writers mw)[i := ?y], mw_err := mw_err mw,
                 mw_wg := (if is_active (mww_worker ?y) then mw_wg mw else mw_wg mw - 1)\<rparr>"
        using pcact by simp
      have pcbad: "is_sending ?pc = bad_call (data, n, err)"
        by (auto simp: is_sending_def bad_call_def split: option.splits)
      have sby: "sink_bad (mww_w ?y) = (sink_bad (mww_w ?x) \<or> bad_call (data, n, err))"
        using nc by (auto simp: sink_bad_def)
      have c: "mww_wc_closed ?y = mww_wc_closed ?x" by simp
      have ns: "mww_worker ?y \<noteq> W_NotStarted" by (simp split: option.splits)
      have h8: "snk_closed (mww_w ?y) \<noteq> None \<longrightarrow> has_closed (mww_worker ?y)" using nc by simp
      have h1: "\<not> sink_bad (mww_w ?y) \<longrightarrow>
               map fst (snk_log (mww_w ?y)) @ mww_wc ?y = sent_to mw i \<and>
               \<not> is_sending (mww_worker ?y) \<and>
               (mww_worker ?y = W_Done \<longrightarrow> mww_wc ?y = [] \<and> mww_wc_closed ?y)"
      proof
        assume nb: "\<not> sink_bad (mww_w ?y)"
        with sby have nbx: "\<not> sink_bad (mww_w ?x)" and gc: "\<not> bad_call (data, n, err)" by simp_all
        from ok nbx Cons have "map fst (snk_log (mww_w ?x)) @ data # rest = sent_to mw i"
          by (simp add: writer_ok_def)
        moreover from gc pcbad have nsd: "\<not> is_sending ?pc" by simp
        moreover have "?pc \<noteq> W_Done" by (simp split: option.splits)
        ultimately show "map fst (snk_log (mww_w ?y)) @ mww_wc ?y = sent_to mw i \<and>
               \<not> is_sending (mww_worker ?y) \<and>
               (mww_worker ?y = W_Done \<longrightarrow> mww_wc ?y = [] \<and> mww_wc_closed ?y)"
          by simp
      qed
      have h2: "mw_err mw \<noteq> [] \<or>
             (mw_err mw = mw_err mw \<and>
              (sink_bad (mww_w ?y) \<longrightarrow> is_sending (mww_worker ?y) \<or> sink_bad (mww_w ?x)) \<and>
              (is_sending (mww_worker ?x) \<longrightarrow> is_sending (mww_worker ?y)))"
        using sby pcbad W_Range by (simp add: is_sending_def)
      from writer_step_inv[OF I i act c ns refl h8 h1 h2] show ?thesis unfolding mw' .
    qed
  next
    case (W_SendWriteErr e)
    have act: "is_active (mww_worker ?x)" using W_SendWriteErr by (simp add: is_active_def)
    from I(8) i W_SendWriteErr have nc: "snk_closed (mww_w ?x) = None"
      by (auto simp: mw_I8_def has_closed_def)
    from ok W_SendWriteErr have badx: "sink_bad (mww_w ?x)"
      by (auto simp: writer_ok_def is_sending_def)
    with nc have lbad: "list_ex bad_call (snk_log (mww_w ?x))" by (simp add: sink_bad_def)
    from assms(2) i W_SendWriteErr False have e0: "mw_err mw = []"
      and mw': "mw' = worker_deferred i (mw\<lparr>mw_err := [e]\<rparr>)"
      by (auto simp: worker_step_def Let_def split: if_splits)
    from worker_deferred_form[OF i nc, of "[e]"] obtain y where
      y: "worker_deferred i (mw\<lparr>mw_err := [e]\<rparr>) =
            mw\<lparr>mw_writers := (mw_writers mw)[i := y], mw_err := [e],
               mw_wg := (if is_active (mww_worker y) then mw_wg mw else mw_wg mw - 1)\<rparr>"
      and c: "mww_wc_closed y = mww_wc_closed ?x"
      and lg: "snk_log (mww_w y) = snk_log (mww_w ?x)"
      and hc: "has_closed (mww_worker y)"
      and ds: "mww_worker y = W_Done \<or> is_sending (mww_worker y)"
      by blast
    have ns: "mww_worker y \<noteq> W_NotStarted" using ds by (auto simp: is_sending_def)
    have bady: "sink_bad (mww_w y)" using lbad lg sink_bad_log[of "mww_w y"] by simp
    have h1: "\<not> sink_bad (mww_w y) \<longrightarrow>
               map fst (snk_log (mww_w y)) @ mww_wc y = sent_to mw i \<and>
               \<not> is_sending (mww_worker y) \<and>
               (mww_worker y = W_Done \<longrightarrow> mww_wc y = [] \<and> mww_wc_closed y)"
      using bady by simp
    have h2: "[e] \<noteq> [] \<or>
             ([e] = mw_err mw \<and>
              (sink_bad (mww_w y) \<longrightarrow> is_sending (mww_worker y) \<or> sink_bad (mww_w ?x)) \<and>
              (is_sending (mww_worker ?x) \<longrightarrow> is_sending (mww_worker y)))"
      by simp
    have h8: "snk_closed (mww_w y) \<noteq> None \<longrightarrow> has_closed (mww_worker y)" using hc by simp
    from writer_step_inv[OF I i act c ns refl h8 h1 h2] show ?thesis unfolding mw' y .
  next
    case (W_SendCloseErr e)
    have act: "is_active (mww_worker ?x)" using W_SendCloseErr by (simp add: is_active_def)
    from ok W_SendCloseErr have badx: "sink_bad (mww_w ?x)"
      by (auto simp: writer_ok_def is_sending_def)
    let ?y = "?x\<lparr>mww_worker := W_Done\<rparr>"
    from assms(2) i W_SendCloseErr False
    have "mw' = mw\<lparr>mw_err := [e], mw_writers := (mw_writers mw)[i := ?y], mw_wg := mw_wg mw - 1\<rparr>"
      by (auto simp: worker_step_def Let_def split: if_splits)
    then have mw': "mw' = mw\<lparr>mw_writers := (mw_writers mw)[i := ?y], mw_err := [e],
               mw_wg := (if is_active (mww_worker ?y) then mw_wg mw else mw_wg mw - 1)\<rparr>"
      by (simp add: is_active_def)
    have c: "mww_wc_closed ?y = mww_wc_closed ?x" by simp
    have ns: "mww_worker ?y \<noteq> W_NotStarted" by simp
    have h8: "snk_closed (mww_w ?y) \<noteq> None \<longrightarrow> has_closed (mww_worker ?y)"
      by (simp add: has_closed_def)
    have h1: "\<not> sink_bad (mww_w ?y) \<longrightarrow>
               map fst (snk_log (mww_w ?y)) @ mww_wc ?y = sent_to mw i \<and>
               \<not> is_sending (mww_worker ?y) \<and>
               (mww_worker ?y = W_Done \<longrightarrow> mww_wc ?y = [] \<and> mww_wc_closed ?y)"
      using badx by simp
    have h2: "[e] \<noteq> [] \<or>
             ([e] = mw_err mw \<and>
              (sink_bad (mww_w ?y) \<longrightarrow> is_sending (mww_worker ?y) \<or> sink_bad (mww_w ?x)) \<and>
              (is_sending (mww_worker ?x) \<longrightarrow> is_sending (mww_worker ?y)))"
      by simp
    from writer_step_inv[OF I i act c ns refl h8 h1 h2] show ?thesis unfolding mw' .
  qed
qed

lemma mw_step_inv:
  assumes "mw_inv mw" and "mw_step a mw = Some mw'"
  shows "mw_inv mw'"
proof (cases a)
  case (MA_Write data)
  with assms mw_inv_Write show ?thesis by simp
next
  case MA_Send
  with assms mw_inv_send show ?thesis by simp
next
  case MA_RecvErr
  with assms mw_inv_recv_err show ?thesis by simp
next
  case MA_Close
  with assms mw_inv_Close show ?thesis by simp
next
  case MA_CloseFinish
  with assms mw_inv_Close_finish show ?thesis by simp
next
  case (MA_Worker i)
  with assms mw_inv_worker show ?thesis by simp
qed

lemma mw_run_inv: "mw_inv mw \<Longrightarrow> mw_run as mw = Some mw' \<Longrightarrow> mw_inv mw'"
proof (induction as arbitrary: mw)
  case Nil
  then show ?case by simp
next
  case (Cons a as)
  from Cons.prems(2) obtain mw1 where s: "mw_step a mw = Some mw1" and r: "mw_run as mw1 = Some mw'"
    by (cases "mw_step a mw") auto
  from Cons.IH[OF mw_step_inv[OF Cons.prems(1) s] r] show ?case .
qed

lemma mw_step_length:
  assumes "mw_step a mw = Some mw'"
  shows "length (mw_writers mw') = length (mw_writers mw)"
proof (cases a)
  case (MA_Write data)
  with assms show ?thesis
    by (auto simp: MultiWriter_Write_def Write_next_def MultiWriter_init_def split: if_splits)
next
  case MA_Send
  with assms show ?thesis
    by (auto simp: Write_send_def Write_next_def Let_def split: if_splits mw_main.splits)
next
  case MA_RecvErr
  with assms show ?thesis
    by (auto simp: Write_recv_err_def split: if_splits mw_main.splits list.splits)
next
  case MA_Close
  with assms show ?thesis by (auto simp: MultiWriter_Close_def split: if_splits)
next
  case MA_CloseFinish
  with assms show ?thesis by (auto simp: Close_finish_def split: if_splits list.splits)
next
  case (MA_Worker i)
  with assms show ?thesis
    by (auto simp: worker_step_def worker_deferred_def Let_def
        split: if_splits mw_worker.splits list.splits prod.splits option.splits)
qed

lemma mw_run_length: "mw_run as mw = Some mw' \<Longrightarrow> length (mw_writers mw') = length (mw_writers mw)"
proof (induction as arbitrary: mw)
  case Nil
  then show ?case by simp
next
  case (Cons a as)
  from Cons.prems obtain mw1 where s: "mw_step a mw = Some mw1" and r: "mw_run as mw1 = Some mw'"
    by (cases "mw_step a mw") auto
  from Cons.IH[OF r] mw_step_length[OF s] show ?case by simp
qed

lemma payloads_writes: "payloads (map (\<lambda>d. WriteRet d (length d) None) ds) = ds"
  by (induction ds) simp_all

lemma good_writes: "list_all ret_good (map (\<lambda>d. WriteRet d (length d) None) ds)"
  by (induction ds) (simp_all add: ret_good_def)

text \<open>
  Claim C4, as stated, fails: Close may return an error, and then a sink may have been
  given less than what was written. Two calls of Write succeed; the sink takes one byte
  less than the first payload, so its goroutine reports \<open>io.ErrShortWrite\<close> and returns;
  Close returns that error, and the second payload is still in the channel, never written
  to the sink.
\<close>

theorem MultiWriter_short_sink_counterexample:
  "map_option mw_returned
     (mw_run [MA_Write [1], MA_Send, MA_Write [2], MA_Send, MA_Worker 0, MA_Close, MA_Worker 0,
              MA_CloseFinish] (NewMultiWriter [short_sink])) =
     Some [WriteRet [1] 1 None, WriteRet [2] 1 None, CloseRet (Some ErrShortWrite)] \<and>
   map_option mw_writers
     (mw_run [MA_Write [1], MA_Send, MA_Write [2], MA_Send, MA_Worker 0, MA_Close, MA_Worker 0,
              MA_CloseFinish] (NewMultiWriter [short_sink])) =
     Some [\<lparr>mww_w = short_sink\<lparr>snk_log := [([1], 0, None)]\<rparr>, mww_wc = [[2]],
            mww_wc_closed = True, mww_worker = W_Done\<rparr>]"
  by (simp add: NewMultiWriter_def short_sink_def short_write_def MultiWriter_Write_def
      MultiWriter_init_def Write_next_def Write_send_def wc_ready_def worker_step_def
      worker_deferred_def MultiWriter_Close_def Close_finish_def Let_def)

text \<open>
  Claim C4, amended: Close returns \<open>nil\<close>. For every list of unused sinks, every length
  of the channels (none included) and every interleaving of the caller with the
  goroutines: if the calls that have returned are calls of Write that returned the full
  length and \<open>nil\<close>, followed by a call of Close that returned \<open>nil\<close>, and the caller
  is outside any call, then every sink has been given exactly the payloads written, each
  once and in the order of the calls of Write, and has taken each of them in full and
  without error. (A payload is a value here: nobody alters a slice handed to Write.)
\<close>

theorem MultiWriter_sinks_receive_all:
  assumes "\<forall>w \<in> set ws. fresh_sink w"
    and "mw_run as ((NewMultiWriter ws)\<lparr>mw_WriteChanLength := n\<rparr>) = Some mw"
    and "mw_returned mw = map (\<lambda>d. WriteRet d (length d) None) ds @ [CloseRet None]"
    and "mw_main mw = M_Idle"
  shows "length (mw_writers mw) = length ws \<and>
         (\<forall>i < length ws.
            map fst (snk_log (mww_w (mw_writers mw ! i))) = ds \<and>
            \<not> list_ex bad_call (snk_log (mww_w (mw_writers mw ! i))))"
proof -
  from mw_run_inv[OF mw_inv_initial[OF assms(1)] assms(2)] have inv: "mw_inv mw" .
  have good: "list_all ret_good (mw_returned mw)"
    unfolding assms(3) using good_writes[of ds] by (simp add: ret_good_def)
  have np: "mw_main mw \<noteq> M_Panicked" using assms(4) by simp
  note I = mw_invD[OF inv np good]
  have len: "length (mw_writers mw) = length ws"
    using mw_run_length[OF assms(2)] by (simp add: NewMultiWriter_def)
  have pl: "payloads (mw_returned mw) = ds"
    unfolding assms(3) by (simp add: payloads_append payloads_writes)
  have cr: "list_ex is_CloseRet (mw_returned mw)"
    unfolding assms(3) by (simp add: is_CloseRet_def)
  have "\<forall>i < length ws.
            map fst (snk_log (mww_w (mw_writers mw ! i))) = ds \<and>
            \<not> list_ex bad_call (snk_log (mww_w (mw_writers mw ! i)))"
  proof (intro allI impI)
    fix i assume "i < length ws"
    with len have i: "i < length (mw_writers mw)" by simp
    show "map fst (snk_log (mww_w (mw_writers mw ! i))) = ds \<and>
            \<not> list_ex bad_call (snk_log (mww_w (mw_writers mw ! i)))"
    proof (cases "mw_inited mw")
      case True
      with I(7) cr have alldone: "\<forall>k < length (mw_writers mw). mww_worker (mw_writers mw ! k) = W_Done"
        and e: "mw_err mw = []" by (simp_all add: mw_I7_def)
      have nobad: "\<not> sink_bad (mww_w (mw_writers mw ! i))"
      proof
        assume "sink_bad (mww_w (mw_writers mw ! i))"
        with I(2) i e obtain k where "k < length (mw_writers mw)"
          "is_sending (mww_worker (mw_writers mw ! k))" by (auto simp: mw_I2_def)
        with alldone show False by (simp add: is_sending_def)
      qed
      from I(1) i have "writer_ok mw i" by (simp add: mw_I1_def)
      with nobad alldone i have
        "map fst (snk_log (mww_w (mw_writers mw ! i))) @ mww_wc (mw_writers mw ! i) = sent_to mw i \<and>
         mww_wc (mw_writers mw ! i) = []"
        by (auto simp: writer_ok_def)
      then have "map fst (snk_log (mww_w (mw_writers mw ! i))) = sent_to mw i" by auto
      then have "map fst (snk_log (mww_w (mw_writers mw ! i))) = ds"
        using pl assms(4) by (simp add: sent_to_def)
      moreover from nobad have "\<not> list_ex bad_call (snk_log (mww_w (mw_writers mw ! i)))"
        by (simp add: sink_bad_def)
      ultimately show ?thesis by simp
    next
      case False
      with I(4) i pl show ?thesis by (simp add: mw_I4_def)
    qed
  qed
  with len show ?thesis by simp
qed

lemma mw_eval_two_sinks:
  "mw_run [MA_Write [1], MA_Send, MA_Send, MA_Worker 0, MA_Worker 1, MA_Write [2], MA_Send,
           MA_Worker 0, MA_Send, MA_Worker 1, MA_Close, MA_Worker 0, MA_Worker 1, MA_CloseFinish]
      ((NewMultiWriter [ok_sink, ok_sink])\<lparr>mw_WriteChanLength := 0\<rparr>) =
     Some \<lparr>mw_writers =
             [\<lparr>mww_w = ok_sink\<lparr>snk_log := [([1], 1, None), ([2], 1, None)]\<rparr>, mww_wc = [],
               mww_wc_closed = True, mww_worker = W_Done\<rparr>,
              \<lparr>mww_w = ok_sink\<lparr>snk_log := [([1], 1, None), ([2], 1, None)]\<rparr>, mww_wc = [],
               mww_wc_closed = True, mww_worker = W_Done\<rparr>],
           mw_WriteChanLength = 0, mw_inited = True, mw_closed = True, mw_err = [],
           mw_err_closed = True, mw_wg = 0, mw_main = M_Idle,
           mw_returned = [WriteRet [1] 1 None, WriteRet [2] 1 None, CloseRet None]\<rparr>"
  by (simp add: NewMultiWriter_def ok_sink_def ok_write_def MultiWriter_Write_def
      MultiWriter_init_def Write_next_def Write_send_def wc_ready_def worker_step_def
      worker_deferred_def MultiWriter_Close_def Close_finish_def Let_def)

theorem MultiWriter_sinks_receive_all_witness:
  "list_all fresh_sink [ok_sink, ok_sink] \<and>
   mw_run [MA_Write [1], MA_Send, MA_Send, MA_Worker 0, MA_Worker 1, MA_Write [2], MA_Send,
           MA_Worker 0, MA_Send, MA_Worker 1, MA_Close, MA_Worker 0, MA_Worker 1, MA_CloseFinish]
      ((NewMultiWriter [ok_sink, ok_sink])\<lparr>mw_WriteChanLength := 0\<rparr>) =
     Some \<lparr>mw_writers =
             [\<lparr>mww_w = ok_sink\<lparr>snk_log := [([1], 1, None), ([2], 1, None)]\<rparr>, mww_wc = [],
               mww_wc_closed = True, mww_worker = W_Done\<rparr>,
              \<lparr>mww_w = ok_sink\<lparr>snk_log := [([1], 1, None), ([2], 1, None)]\<rparr>, mww_wc = [],
               mww_wc_closed = True, mww_worker = W_Done\<rparr>],
           mw_WriteChanLength = 0, mw_inited = True, mw_closed = True, mw_err = [],
           mw_err_closed = True, mw_wg = 0, mw_main = M_Idle,
           mw_returned = [WriteRet [1] 1 None, WriteRet [2] 1 None, CloseRet None]\<rparr> \<and>
   [WriteRet [1] 1 None, WriteRet [2] 1 None, CloseRet None] =
     map (\<lambda>d. WriteRet d (length d) None) [[1], [2]] @ [CloseRet None] \<and>
   map fst (snk_log (ok_sink\<lparr>snk_log := [([1], 1, None), ([2], 1, None)]\<rparr>)) = [[1], [2]] \<and>
   \<not> list_ex bad_call (snk_log (ok_sink\<lparr>snk_log := [([1], 1, None), ([2], 1, None)]\<rparr>))"
proof -
  have f: "\<forall>w \<in> set [ok_sink, ok_sink]. fresh_sink w" by (simp add: fresh_sink_def ok_sink_def)
  from MultiWriter_sinks_receive_all[OF f mw_eval_two_sinks, of "[[1], [2]]"]
  have "\<forall>i < 2. map fst (snk_log (mww_w ([\<lparr>mww_w = ok_sink\<lparr>snk_log := [([1], 1, None), ([2], 1, None)]\<rparr>, mww_wc = [],
               mww_wc_closed = True, mww_worker = W_Done\<rparr>,
              \<lparr>mww_w = ok_sink\<lparr>snk_log := [([1], 1, None), ([2], 1, None)]\<rparr>, mww_wc = [],
               mww_wc_closed = True, mww_worker = W_Done\<rparr>] ! i))) = [[1], [2]] \<and>
        \<not> list_ex bad_call (snk_log (mww_w ([\<lparr>mww_w = ok_sink\<lparr>snk_log := [([1], 1, None), ([2], 1, None)]\<rparr>, mww_wc = [],
               mww_wc_closed = True, mww_worker = W_Done\<rparr>,
              \<lparr>mww_w = ok_sink\<lparr>snk_log := [([1], 1, None), ([2], 1, None)]\<rparr>, mww_wc = [],
               mww_wc_closed = True, mww_worker = W_Done\<rparr>] ! i)))"
    by simp
  then have "map fst (snk_log (ok_sink\<lparr>snk_log := [([1], 1, None), ([2], 1, None)]\<rparr>)) = [[1], [2]] \<and>
   \<not> list_ex bad_call (snk_log (ok_sink\<lparr>snk_log := [([1], 1, None), ([2], 1, None)]\<rparr>))"
    by (drule_tac x = 0 in spec) simp
  with f mw_eval_two_sinks show ?thesis by (simp add: list_all_iff)
qed

end
